theory Spec2Isabelle
  imports Complex_Main "HOL-Library.Multiset"
begin

section \<open>The rendered tree\<close>

text \<open>
  The rendered tree is the platform's DOM. A node carries the optional back-reference
  \<open>cmView\<close> to the descriptor that owns it and its child nodes. The model is a forest
  (the document tree and detached subtrees); a node reference is the path to the node,
  innermost index first, so that \<open>parentNode\<close> is the tail of the path and the
  siblings differ in the head index.
\<close>

type_synonym desc = nat

type_synonym node = "nat list"

datatype dnode = DNode (cmView: "desc option") (childNodes: "dnode list")

fun walk :: "dnode list \<Rightarrow> nat list \<Rightarrow> dnode option" where
  "walk ts [] = None"
| "walk ts [i] = (if i < length ts then Some (ts ! i) else None)"
| "walk ts (i # j # js) = (if i < length ts then walk (childNodes (ts ! i)) (j # js) else None)"

definition nodeAt :: "dnode list \<Rightarrow> node \<Rightarrow> dnode option" where
  "nodeAt forest n = walk forest (rev n)"

definition nodeView :: "dnode list \<Rightarrow> node \<Rightarrow> desc option" where
  "nodeView forest n = (case nodeAt forest n of None \<Rightarrow> None | Some d \<Rightarrow> cmView d)"

definition numChildren :: "dnode list \<Rightarrow> node \<Rightarrow> nat" where
  "numChildren forest n = (case nodeAt forest n of None \<Rightarrow> 0 | Some d \<Rightarrow> length (childNodes d))"

fun parentNode :: "node \<Rightarrow> node option" where
  "parentNode [] = None"
| "parentNode [i] = None"
| "parentNode (i # p) = Some p"

fun nextSibling :: "dnode list \<Rightarrow> node \<Rightarrow> node option" where
  "nextSibling forest [] = None"
| "nextSibling forest [i] = None"
| "nextSibling forest (i # p) = (if Suc i < numChildren forest p then Some (Suc i # p) else None)"

fun previousSibling :: "dnode list \<Rightarrow> node \<Rightarrow> node option" where
  "previousSibling forest [] = None"
| "previousSibling forest [i] = None"
| "previousSibling forest (i # p) = (if 0 < i then Some ((i - 1) # p) else None)"

section \<open>The view tree (external collaborator)\<close>

text \<open>
  The document-tree view layer is not part of the observer's source; the observer only
  consumes \<open>nearest\<close>, \<open>parent\<close>, \<open>dom\<close>, the four position functions, \<open>markDirty\<close>,
  \<open>dirty\<close> and \<open>sync\<close>. The lookups are taken as parameters of the model.
\<close>

record docview =
  forest :: "dnode list"
  nearest :: "node \<Rightarrow> desc option"
  parent :: "desc \<Rightarrow> desc option"
  dom :: "desc \<Rightarrow> node option"
  posAtStart :: "desc \<Rightarrow> int"
  posAtEnd :: "desc \<Rightarrow> int"
  posBefore :: "desc \<Rightarrow> desc \<Rightarrow> int"
  posAfter :: "desc \<Rightarrow> desc \<Rightarrow> int"
  dirtyMarks :: "desc list"

text \<open>
  Modelled from the spec: \<open>markDirty\<close>, \<open>docView.dirty\<close> and \<open>docView.sync()\<close> of the
  view layer (viewdesc, not among the sources). Marking a descriptor dirty signals the
  view layer that it must resync; \<open>dirty\<close> tells whether any mark is outstanding and
  \<open>sync\<close> clears the marks.
\<close>

definition markDirty :: "desc \<Rightarrow> docview \<Rightarrow> docview" where
  "markDirty d v = v\<lparr>dirtyMarks := dirtyMarks v @ [d]\<rparr>"

definition dirty :: "docview \<Rightarrow> bool" where
  "dirty v = (dirtyMarks v \<noteq> [])"

definition sync :: "docview \<Rightarrow> docview" where
  "sync v = v\<lparr>dirtyMarks := []\<rparr>"

section \<open>Mutation records and the mutation reader\<close>

datatype mutation_type = ChildList | CharacterData | Attributes

record mutation_record =
  rec_target :: node
  rec_type :: mutation_type
  rec_previousSibling :: "node option"
  rec_nextSibling :: "node option"
  rec_oldValue :: "string option"

record range =
  r_from :: int
  r_to :: int

text \<open>
  \<open>findChild(desc, dom, dir)\<close>: from \<open>dom\<close>, a node whose descriptor has \<open>desc\<close> as its
  parent ends the search; otherwise the walk goes up to the parent node, unless that is
  \<open>desc.dom\<close>, where it goes on to the next or previous sibling. On a forest the loop
  terminates: going up shortens the path, and going sideways moves towards the end of
  the sibling list.
\<close>

definition ownedBy :: "docview \<Rightarrow> desc \<Rightarrow> desc option \<Rightarrow> bool" where
  "ownedBy v desc curDesc = (case curDesc of None \<Rightarrow> False | Some c \<Rightarrow> parent v c = Some desc)"

definition lateral :: "docview \<Rightarrow> int \<Rightarrow> node \<Rightarrow> nat" where
  "lateral v dir n = (case n of [] \<Rightarrow> 0
     | i # p \<Rightarrow> if dir > 0 then numChildren (forest v) p - i else i)"

function findChild :: "docview \<Rightarrow> desc \<Rightarrow> node option \<Rightarrow> int \<Rightarrow> desc option" where
  "findChild v desc None dir = None"
| "findChild v desc (Some n) dir =
     (let curDesc = nodeView (forest v) n in
      if ownedBy v desc curDesc then curDesc
      else let par = parentNode n in
        findChild v desc
          (if par \<noteq> dom v desc then par
           else if dir > 0 then nextSibling (forest v) n else previousSibling (forest v) n)
          dir)"
  by pat_completeness auto
termination
proof (relation "measures [\<lambda>(v, desc, n, dir). (case n of None \<Rightarrow> 0 | Some p \<Rightarrow> Suc (length p)),
                           \<lambda>(v, desc, n, dir). (case n of None \<Rightarrow> 0 | Some p \<Rightarrow> lateral v dir p)]",
       goal_cases)
  case 1
  show ?case by simp
next
  case (2 v desc n dir curDesc par)
  show ?case
  proof (cases n rule: parentNode.cases)
    case 1
    with 2 show ?thesis by simp
  next
    case (2 i)
    with \<open>par = parentNode n\<close> show ?thesis by simp
  next
    case (3 i j p)
    with \<open>par = parentNode n\<close> show ?thesis
      by (auto simp: lateral_def)
  qed
qed

text \<open>
  \<open>DOMObserver.readMutation\<close>. \<open>orElse a b\<close> is \<open>a || b\<close> on node references.
\<close>

definition orElse :: "'a option \<Rightarrow> 'a option \<Rightarrow> 'a option" where
  "orElse a b = (case a of Some x \<Rightarrow> Some x | None \<Rightarrow> b)"

definition readMutation :: "mutation_record \<Rightarrow> docview \<Rightarrow> range option \<times> docview" where
  "readMutation r v =
     (case nearest v (rec_target r) of
        None \<Rightarrow> (None, v)
      | Some desc \<Rightarrow>
         (let v' = markDirty desc v in
          if rec_type r = ChildList then
            (let childBefore = findChild v' desc
                   (orElse (rec_previousSibling r) (previousSibling (forest v') (rec_target r))) (-1);
                 childAfter = findChild v' desc
                   (orElse (rec_nextSibling r) (nextSibling (forest v') (rec_target r))) 1
             in (Some \<lparr>r_from = (case childBefore of Some c \<Rightarrow> posAfter v' desc c | None \<Rightarrow> posAtStart v' desc),
                       r_to = (case childAfter of Some c \<Rightarrow> posBefore v' desc c | None \<Rightarrow> posAtEnd v' desc)\<rparr>, v'))
          else (Some \<lparr>r_from = posAtStart v' desc, r_to = posAtEnd v' desc\<rparr>, v')))"

section \<open>The observer\<close>

text \<open>
  The three callbacks handed to the constructor are opaque; every invocation is recorded
  in \<open>trace\<close>, as is every \<open>docView.sync()\<close>.
\<close>

datatype callback = DOMChange int int | SelectionChange | Intersect | Sync

text \<open>
  The fields of the class, followed by the platform state the class reads and writes
  through its handles: whether \<open>MutationObserver\<close> exists (\<open>observer\<close>), whether it is
  connected and which records it holds for \<open>takeRecords\<close>, the registered listeners, the
  pending timers, the elements and queued entries of the intersection observer, and what
  \<open>getRoot(dom).activeElement\<close> and \<open>hasSelection(dom)\<close> currently answer.
\<close>

record dom_observer =
  docView :: docview
  observer :: bool
  useCharData :: bool
  charDataQueue :: "mutation_record list"
  charDataTimeout :: "nat option"
  active :: bool
  listening :: bool
  observing :: bool
  pendingRecords :: "mutation_record list"
  charDataListener :: bool
  selectionListener :: bool
  focusBlurListeners :: bool
  timers :: "nat list"
  nextTimer :: nat
  intersectionObserved :: "nat list"
  intersectionQueue :: "real list"
  rootFocused :: bool
  hasSelection :: bool
  trace :: "callback list"

text \<open>
  \<open>clearTimeout(handle)\<close> removes a pending timer; with \<open>null\<close> it does nothing.
\<close>

definition clearTimeout :: "nat option \<Rightarrow> nat list \<Rightarrow> nat list" where
  "clearTimeout h ts = (case h of None \<Rightarrow> ts | Some i \<Rightarrow> removeAll i ts)"

text \<open>
  \<open>DOMObserver.applyMutations\<close>, in three parts: the loop over the records, whose body
  merges a resolved range into \<open>(from, to)\<close>; the block that drains the legacy queue;
  and the method itself.
\<close>

definition mergeStep :: "int \<times> int \<Rightarrow> range \<Rightarrow> int \<times> int" where
  "mergeStep acc rg =
     (if fst acc = -1 then (r_from rg, r_to rg)
      else (min (r_from rg) (fst acc), max (r_to rg) (snd acc)))"

fun readRecords :: "mutation_record list \<Rightarrow> int \<times> int \<Rightarrow> docview \<Rightarrow> (int \<times> int) \<times> docview" where
  "readRecords [] acc v = (acc, v)"
| "readRecords (r # rs) acc v =
     (case readMutation r v of
        (None, v') \<Rightarrow> readRecords rs acc v'
      | (Some rg, v') \<Rightarrow> readRecords rs (mergeStep acc rg) v')"

definition drainCharData :: "mutation_record list \<Rightarrow> dom_observer \<Rightarrow> mutation_record list \<times> dom_observer" where
  "drainCharData records s =
     (if charDataQueue s \<noteq> [] then
        (records @ charDataQueue s,
         s\<lparr>timers := clearTimeout (charDataTimeout s) (timers s),
           charDataTimeout := None,
           charDataQueue := []\<rparr>)
      else (records, s))"

definition applyMutations :: "mutation_record list \<Rightarrow> dom_observer \<Rightarrow> bool \<times> dom_observer" where
  "applyMutations records0 s0 =
     (case drainCharData records0 s0 of (records, s) \<Rightarrow>
        if records = [] then (False, s)
        else (case readRecords records (-1, -1) (docView s) of ((from, to), v) \<Rightarrow>
          let apply = (from > -1 \<and> active s);
              t1 = (if apply then trace s @ [DOMChange from to] else trace s)
          in if dirty v then (apply, s\<lparr>docView := sync v, trace := t1 @ [Sync]\<rparr>)
             else (apply, s\<lparr>docView := v, trace := t1\<rparr>)))"

text \<open>
  \<open>flush\<close>, \<open>start\<close> and \<open>stop\<close>. \<open>takeRecords\<close> returns and empties the records the
  platform holds for the observer, and \<open>disconnect\<close> also drops them.
\<close>

definition flush :: "dom_observer \<Rightarrow> bool \<times> dom_observer" where
  "flush s =
     (if observer s then applyMutations (pendingRecords s) (s\<lparr>pendingRecords := []\<rparr>)
      else applyMutations [] s)"

definition start :: "dom_observer \<Rightarrow> dom_observer" where
  "start s =
     (if active s then s
      else (let s1 = (if observer s then s\<lparr>observing := True\<rparr> else s);
                s2 = (if useCharData s1 then s1\<lparr>charDataListener := True\<rparr> else s1)
            in s2\<lparr>intersectionQueue := [], active := True\<rparr>))"

definition stop :: "dom_observer \<Rightarrow> dom_observer" where
  "stop s =
     (if \<not> active s then s
      else (let s1 = s\<lparr>active := False\<rparr>;
                s2 = (if observer s1
                      then (snd (flush s1))\<lparr>observing := False, pendingRecords := []\<rparr>
                      else s1)
            in if useCharData s2 then s2\<lparr>charDataListener := False\<rparr> else s2))"

text \<open>
  The action wrapped by \<open>withoutListening\<close> is any code of the caller: it transforms
  the state and either returns or raises an exception of type \<open>'e\<close>. Neither \<open>stop\<close> nor
  \<open>start\<close> raises, so the \<open>finally\<close> block runs \<open>start\<close> on the state the action left
  and the action's outcome is the outcome of the whole call.
\<close>

definition withoutListening :: "(dom_observer \<Rightarrow> 'e option \<times> dom_observer) \<Rightarrow> dom_observer \<Rightarrow> 'e option \<times> dom_observer" where
  "withoutListening f s =
     (case f (stop s) of (outcome, s') \<Rightarrow> (outcome, start s'))"

text \<open>
  \<open>readSelection\<close>, the legacy \<open>onCharData\<close> listener (its timer runs \<open>flush\<close>), the
  focus and blur listeners of \<open>listenForSelectionChanges\<close>, the callback of the
  intersection observer, \<open>observeIntersection\<close>, \<open>destroy\<close> and the constructor.
\<close>

definition readSelection :: "dom_observer \<Rightarrow> dom_observer" where
  "readSelection s =
     (if \<not> active s \<or> \<not> rootFocused s \<or> \<not> hasSelection s then s
      else (case flush s of (applied, s') \<Rightarrow>
              if \<not> applied then s'\<lparr>trace := trace s' @ [SelectionChange]\<rparr> else s'))"

definition onCharData :: "node \<Rightarrow> string option \<Rightarrow> dom_observer \<Rightarrow> dom_observer" where
  "onCharData tgt prevValue s =
     (let s1 = s\<lparr>charDataQueue := charDataQueue s @
                  [\<lparr>rec_target = tgt, rec_type = CharacterData, rec_previousSibling = None,
                    rec_nextSibling = None, rec_oldValue = prevValue\<rparr>]\<rparr>
      in if charDataTimeout s1 = None
         then s1\<lparr>charDataTimeout := Some (nextTimer s1),
                 timers := timers s1 @ [nextTimer s1],
                 nextTimer := Suc (nextTimer s1)\<rparr>
         else s1)"

definition onFocus :: "dom_observer \<Rightarrow> dom_observer" where
  "onFocus s =
     (if listening s then s
      else (let s1 = s\<lparr>selectionListener := True, listening := True\<rparr>
            in if hasSelection s1 then readSelection s1 else s1))"

definition onBlur :: "dom_observer \<Rightarrow> dom_observer" where
  "onBlur s =
     (if \<not> listening s then s
      else s\<lparr>selectionListener := False, listening := False\<rparr>)"

definition listenForSelectionChanges :: "dom_observer \<Rightarrow> dom_observer" where
  "listenForSelectionChanges s = s\<lparr>listening := False, focusBlurListeners := True\<rparr>"

definition onIntersection :: "real list \<Rightarrow> dom_observer \<Rightarrow> dom_observer" where
  "onIntersection entries s =
     (if \<exists>ratio \<in> set entries. ratio > 0 then s\<lparr>trace := trace s @ [Intersect]\<rparr> else s)"

definition observeIntersection :: "nat list \<Rightarrow> dom_observer \<Rightarrow> dom_observer" where
  "observeIntersection elts s = s\<lparr>intersectionObserved := elts, intersectionQueue := []\<rparr>"

definition destroy :: "dom_observer \<Rightarrow> dom_observer" where
  "destroy s = (stop s)\<lparr>selectionListener := False\<rparr>"

definition constructor :: "docview \<Rightarrow> bool \<Rightarrow> bool \<Rightarrow> dom_observer" where
  "constructor dv hasMutationObserver ie11 =
     start (listenForSelectionChanges
       \<lparr>docView = dv, observer = hasMutationObserver, useCharData = ie11,
        charDataQueue = [], charDataTimeout = None, active = False, listening = False,
        observing = False, pendingRecords = [], charDataListener = False,
        selectionListener = False, focusBlurListeners = False, timers = [], nextTimer = 1,
        intersectionObserved = [], intersectionQueue = [], rootFocused = False,
        hasSelection = False, trace = []\<rparr>)"

section \<open>Platform events\<close>

text \<open>
  What the platform can do to a live observer: mutate the rendered tree (a record is
  queued when the mutation observer is connected), deliver the queued records to the
  observer's callback, raise a legacy character-data event, fire a timer, raise
  \<open>selectionchange\<close>, \<open>focus\<close> or \<open>blur\<close>, report or deliver intersection entries, and
  change focus and selection. An event whose listener is not registered does nothing.
\<close>

datatype event =
    Mutated mutation_record
  | ObserverCallback
  | CharDataModified node "string option"
  | TimerFired nat
  | SelectionChangeEv
  | FocusEv
  | BlurEv
  | Intersected real
  | IntersectionCallback
  | PlatformState bool bool

fun fire :: "event \<Rightarrow> dom_observer \<Rightarrow> dom_observer" where
  "fire (Mutated r) s =
     (if observing s then s\<lparr>pendingRecords := pendingRecords s @ [r]\<rparr> else s)"
| "fire ObserverCallback s =
     (if observing s \<and> pendingRecords s \<noteq> []
      then snd (applyMutations (pendingRecords s) (s\<lparr>pendingRecords := []\<rparr>)) else s)"
| "fire (CharDataModified tgt prevValue) s =
     (if charDataListener s then onCharData tgt prevValue s else s)"
| "fire (TimerFired h) s =
     (if h \<in> set (timers s) then snd (flush (s\<lparr>timers := removeAll h (timers s)\<rparr>)) else s)"
| "fire SelectionChangeEv s = (if selectionListener s then readSelection s else s)"
| "fire FocusEv s = (if focusBlurListeners s then onFocus s else s)"
| "fire BlurEv s = (if focusBlurListeners s then onBlur s else s)"
| "fire (Intersected ratio) s =
     (if intersectionObserved s \<noteq> [] then s\<lparr>intersectionQueue := intersectionQueue s @ [ratio]\<rparr> else s)"
| "fire IntersectionCallback s =
     (if intersectionQueue s \<noteq> []
      then onIntersection (intersectionQueue s) (s\<lparr>intersectionQueue := []\<rparr>) else s)"
| "fire (PlatformState f sel) s = s\<lparr>rootFocused := f, hasSelection := sel\<rparr>"

fun fireAll :: "event list \<Rightarrow> dom_observer \<Rightarrow> dom_observer" where
  "fireAll [] s = s"
| "fireAll (e # es) s = fireAll es (fire e s)"

section \<open>Key bindings\<close>

text \<open>
  Errors are \<open>new Error(message)\<close>. The platform names are those of \<open>PlatformName\<close>.
  The regular expressions that test a modifier are case-insensitive, which for these
  ASCII patterns is a comparison of the lower-cased modifier.
\<close>

datatype error = Error string

datatype PlatformName = Mac | Win | Linux | Key

definition lowerChar :: "char \<Rightarrow> char" where
  "lowerChar c =
     (case map_of (zip ''ABCDEFGHIJKLMNOPQRSTUVWXYZ'' ''abcdefghijklmnopqrstuvwxyz'') c of
        Some l \<Rightarrow> l | None \<Rightarrow> c)"

definition lower :: "string \<Rightarrow> string" where
  "lower s = map lowerChar s"

text \<open>\<open>name.split(/c(?!$)/)\<close>: split at every \<open>c\<close> that is not the last character.\<close>

fun splitNotLast :: "char \<Rightarrow> string \<Rightarrow> string list" where
  "splitNotLast c [] = [ [] ]"
| "splitNotLast c (x # xs) =
     (if x = c \<and> xs \<noteq> [] then [] # splitNotLast c xs
      else (case splitNotLast c xs of [] \<Rightarrow> [ [x] ] | p # ps \<Rightarrow> (x # p) # ps))"

fun splitAll :: "char \<Rightarrow> string \<Rightarrow> string list" where
  "splitAll c [] = [ [] ]"
| "splitAll c (x # xs) =
     (if x = c then [] # splitAll c xs
      else (case splitAll c xs of [] \<Rightarrow> [ [x] ] | p # ps \<Rightarrow> (x # p) # ps))"

fun joinWith :: "string \<Rightarrow> string list \<Rightarrow> string" where
  "joinWith sep [] = []"
| "joinWith sep [p] = p"
| "joinWith sep (p # q # ps) = p @ sep @ joinWith sep (q # ps)"

text \<open>
  \<open>normalizeKeyName\<close>: the last part is the key, the parts before it are modifiers, read
  by the loop \<open>readModifiers\<close> into the four flags.
\<close>

record modifiers =
  m_alt :: bool
  m_ctrl :: bool
  m_shift :: bool
  m_meta :: bool

fun readModifiers :: "PlatformName \<Rightarrow> string list \<Rightarrow> modifiers \<Rightarrow> error + modifiers" where
  "readModifiers platform [] ms = Inr ms"
| "readModifiers platform (md # mods) ms =
     (if lower md \<in> {''cmd'', ''meta'', ''m''} then readModifiers platform mods (ms\<lparr>m_meta := True\<rparr>)
      else if lower md \<in> {''a'', ''alt''} then readModifiers platform mods (ms\<lparr>m_alt := True\<rparr>)
      else if lower md \<in> {''c'', ''ctrl'', ''control''} then readModifiers platform mods (ms\<lparr>m_ctrl := True\<rparr>)
      else if lower md \<in> {''s'', ''shift''} then readModifiers platform mods (ms\<lparr>m_shift := True\<rparr>)
      else if lower md = ''mod'' then
        (if platform = Mac then readModifiers platform mods (ms\<lparr>m_meta := True\<rparr>)
         else readModifiers platform mods (ms\<lparr>m_ctrl := True\<rparr>))
      else Inl (Error (''Unrecognized modifier name: '' @ md)))"

definition normalizeKeyName :: "string \<Rightarrow> PlatformName \<Rightarrow> error + string" where
  "normalizeKeyName name platform =
     (let parts = splitNotLast CHR ''-'' name;
          result0 = last parts;
          result1 = (if result0 = ''Space'' then '' '' else result0)
      in (case readModifiers platform (butlast parts)
                 \<lparr>m_alt = False, m_ctrl = False, m_shift = False, m_meta = False\<rparr> of
            Inl e \<Rightarrow> Inl e
          | Inr ms \<Rightarrow>
             (let r2 = (if m_alt ms then ''Alt-'' @ result1 else result1);
                  r3 = (if m_ctrl ms then ''Ctrl-'' @ r2 else r2);
                  r4 = (if m_meta ms then ''Meta-'' @ r3 else r3);
                  r5 = (if m_shift ms then ''Shift-'' @ r4 else r4)
              in Inr r5)))"

text \<open>
  A command is an opaque function of the caller; the only command the keymap itself
  creates is the closure stored for a multi-stroke prefix, which remembers the prefix
  and the scope.
\<close>

datatype command = UserCommand nat | StorePrefix string string

record KeyBinding =
  kb_key :: "string option"
  kb_mac :: "string option"
  kb_win :: "string option"
  kb_linux :: "string option"
  kb_run :: command
  kb_shift :: "command option"
  kb_scope :: "string option"
  kb_preventDefault :: bool

record Binding =
  preventDefault :: bool
  commands :: "command list"

type_synonym ScopeMap = "string \<rightharpoonup> Binding"

type_synonym Keymap = "string \<rightharpoonup> ScopeMap"

text \<open>
  \<open>buildKeymap\<close> with its local functions \<open>checkPrefix\<close> and \<open>add\<close>; their shared
  variables \<open>bound\<close> and \<open>isPrefix\<close> are the state passed along. \<open>normalizeAll\<close> is the
  \<open>map\<close> over the strokes of a key, \<open>addPrefixes\<close> the loop over its proper prefixes,
  \<open>addScopes\<close> the loop over the scopes of a binding and \<open>buildLoop\<close> the loop over the
  bindings. \<open>bindingName\<close> is \<open>b[platform] || b.key\<close>, with \<open>None\<close> where the binding is
  skipped.
\<close>

definition checkPrefix :: "string \<Rightarrow> bool \<Rightarrow> (string \<rightharpoonup> bool) \<Rightarrow> error + (string \<rightharpoonup> bool)" where
  "checkPrefix name is isPrefix =
     (case isPrefix name of
        None \<Rightarrow> Inr (isPrefix(name \<mapsto> is))
      | Some current \<Rightarrow>
          if current \<noteq> is
          then Inl (Error (''Key binding '' @ name @ '' is used both as a regular binding and as a multi-stroke prefix''))
          else Inr isPrefix)"

fun normalizeAll :: "PlatformName \<Rightarrow> string list \<Rightarrow> error + string list" where
  "normalizeAll platform [] = Inr []"
| "normalizeAll platform (k # ks) =
     (case normalizeKeyName k platform of
        Inl e \<Rightarrow> Inl e
      | Inr n \<Rightarrow> (case normalizeAll platform ks of Inl e \<Rightarrow> Inl e | Inr ns \<Rightarrow> Inr (n # ns)))"

fun addPrefixes :: "string \<Rightarrow> string list \<Rightarrow> nat list \<Rightarrow> ScopeMap \<times> (string \<rightharpoonup> bool)
    \<Rightarrow> error + ScopeMap \<times> (string \<rightharpoonup> bool)" where
  "addPrefixes scope parts [] st = Inr st"
| "addPrefixes scope parts (i # is) (scopeObj, isPrefix) =
     (let prefix = joinWith '' '' (take i parts) in
      (case checkPrefix prefix True isPrefix of
         Inl e \<Rightarrow> Inl e
       | Inr isPrefix' \<Rightarrow>
           addPrefixes scope parts is
             (if scopeObj prefix = None
              then scopeObj(prefix \<mapsto> \<lparr>preventDefault = True, commands = [StorePrefix prefix scope]\<rparr>)
              else scopeObj, isPrefix')))"

definition add :: "PlatformName \<Rightarrow> string \<Rightarrow> string \<Rightarrow> command \<Rightarrow> bool \<Rightarrow> Keymap \<times> (string \<rightharpoonup> bool)
    \<Rightarrow> error + Keymap \<times> (string \<rightharpoonup> bool)" where
  "add platform scope key command prevDefault st =
     (let bound = fst st; isPrefix = snd st;
          scopeObj = (case bound scope of Some obj \<Rightarrow> obj | None \<Rightarrow> Map.empty)
      in (case normalizeAll platform (splitNotLast CHR '' '' key) of
            Inl e \<Rightarrow> Inl e
          | Inr parts \<Rightarrow>
             (case addPrefixes scope parts [1..<length parts] (scopeObj, isPrefix) of
                Inl e \<Rightarrow> Inl e
              | Inr (scopeObj1, isPrefix1) \<Rightarrow>
                 (let full = joinWith '' '' parts in
                  (case checkPrefix full False isPrefix1 of
                     Inl e \<Rightarrow> Inl e
                   | Inr isPrefix2 \<Rightarrow>
                      (let binding = (case scopeObj1 full of Some b \<Rightarrow> b
                                      | None \<Rightarrow> \<lparr>preventDefault = False, commands = []\<rparr>);
                           binding1 = binding\<lparr>commands := commands binding @ [command]\<rparr>;
                           binding2 = (if prevDefault then binding1\<lparr>preventDefault := True\<rparr> else binding1)
                       in Inr (bound(scope \<mapsto> scopeObj1(full \<mapsto> binding2)), isPrefix2)))))))"

definition bindingName :: "PlatformName \<Rightarrow> KeyBinding \<Rightarrow> string option" where
  "bindingName platform b =
     (let own = (case platform of Mac \<Rightarrow> kb_mac b | Win \<Rightarrow> kb_win b | Linux \<Rightarrow> kb_linux b | Key \<Rightarrow> kb_key b);
          name = (if own = None \<or> own = Some [] then kb_key b else own)
      in if name = Some [] then None else name)"

fun addScopes :: "PlatformName \<Rightarrow> KeyBinding \<Rightarrow> string \<Rightarrow> string list \<Rightarrow> Keymap \<times> (string \<rightharpoonup> bool)
    \<Rightarrow> error + Keymap \<times> (string \<rightharpoonup> bool)" where
  "addScopes platform b name [] st = Inr st"
| "addScopes platform b name (scope # scopes) st =
     (case add platform scope name (kb_run b) (kb_preventDefault b) st of
        Inl e \<Rightarrow> Inl e
      | Inr st1 \<Rightarrow>
         (case kb_shift b of
            None \<Rightarrow> addScopes platform b name scopes st1
          | Some sh \<Rightarrow>
             (case add platform scope (''Shift-'' @ name) sh (kb_preventDefault b) st1 of
                Inl e \<Rightarrow> Inl e
              | Inr st2 \<Rightarrow> addScopes platform b name scopes st2)))"

definition bindingScopes :: "KeyBinding \<Rightarrow> string list" where
  "bindingScopes b =
     (case kb_scope b of
        None \<Rightarrow> [''editor'']
      | Some sc \<Rightarrow> if sc = [] then [''editor''] else splitAll CHR '' '' sc)"

fun buildLoop :: "PlatformName \<Rightarrow> KeyBinding list \<Rightarrow> Keymap \<times> (string \<rightharpoonup> bool)
    \<Rightarrow> error + Keymap \<times> (string \<rightharpoonup> bool)" where
  "buildLoop platform [] st = Inr st"
| "buildLoop platform (b # bs) st =
     (case bindingName platform b of
        None \<Rightarrow> buildLoop platform bs st
      | Some name \<Rightarrow>
         (case addScopes platform b name (bindingScopes b) st of
            Inl e \<Rightarrow> Inl e
          | Inr st' \<Rightarrow> buildLoop platform bs st'))"

definition buildKeymap :: "KeyBinding list \<Rightarrow> PlatformName \<Rightarrow> error + Keymap" where
  "buildKeymap bindings platform =
     (case buildLoop platform bindings (Map.empty, Map.empty) of
        Inl e \<Rightarrow> Inl e
      | Inr (bound, isPrefix) \<Rightarrow> Inr bound)"

text \<open>
  \<open>Keymaps\<close> is a weak map keyed by the identity of the facet's value, so the editor
  state is modelled by that identity (\<open>facetRef\<close>) and the value itself. The platform is
  the module constant \<open>currentPlatform\<close>, taken as a parameter.
\<close>

record EditorState =
  facetRef :: nat
  keymapFacet :: "KeyBinding list list"

definition getKeymap :: "PlatformName \<Rightarrow> EditorState \<Rightarrow> (nat \<rightharpoonup> Keymap) \<Rightarrow> error + Keymap \<times> (nat \<rightharpoonup> Keymap)" where
  "getKeymap currentPlatform state Keymaps =
     (let bindings = keymapFacet state in
      (case Keymaps (facetRef state) of
         Some m \<Rightarrow> Inr (m, Keymaps)
       | None \<Rightarrow>
          (case buildKeymap (concat bindings) currentPlatform of
             Inl e \<Rightarrow> Inl e
           | Inr m \<Rightarrow> Inr (m, Keymaps(facetRef state \<mapsto> m)))))"

text \<open>
  The \<open>keydown\<close> handler of \<open>handleKeyEvents\<close> and \<open>runScopeHandlers\<close> both evaluate
  \<open>getKeymap(view.state)\<close> as the first argument of \<open>runHandlers\<close>; an exception raised
  there leaves the handler before \<open>runHandlers\<close> is entered. The dispatch itself depends
  on the key-name tables of an external package and is a parameter here.
\<close>

definition runScopeHandlers :: "(Keymap \<Rightarrow> 'ev \<Rightarrow> string \<Rightarrow> 'r) \<Rightarrow> PlatformName \<Rightarrow> EditorState \<Rightarrow> 'ev \<Rightarrow> string
    \<Rightarrow> (nat \<rightharpoonup> Keymap) \<Rightarrow> error + 'r \<times> (nat \<rightharpoonup> Keymap)" where
  "runScopeHandlers runHandlers currentPlatform state ev scope Keymaps =
     (case getKeymap currentPlatform state Keymaps of
        Inl e \<Rightarrow> Inl e
      | Inr (m, Keymaps') \<Rightarrow> Inr (runHandlers m ev scope, Keymaps'))"

definition keydown :: "(Keymap \<Rightarrow> 'ev \<Rightarrow> string \<Rightarrow> 'r) \<Rightarrow> PlatformName \<Rightarrow> 'ev \<Rightarrow> EditorState
    \<Rightarrow> (nat \<rightharpoonup> Keymap) \<Rightarrow> error + 'r \<times> (nat \<rightharpoonup> Keymap)" where
  "keydown runHandlers currentPlatform ev state Keymaps =
     (case getKeymap currentPlatform state Keymaps of
        Inl e \<Rightarrow> Inl e
      | Inr (m, Keymaps') \<Rightarrow> Inr (runHandlers m ev ''editor'', Keymaps'))"

section \<open>Runs, traces and batches\<close>

text \<open>
  Calls that process mutation records: the two public methods and everything the
  platform can trigger.
\<close>

datatype processing = ViaFlush | ViaApplyMutations "mutation_record list" | ViaPlatform event

fun process :: "processing \<Rightarrow> dom_observer \<Rightarrow> dom_observer" where
  "process ViaFlush s = snd (flush s)"
| "process (ViaApplyMutations records) s = snd (applyMutations records s)"
| "process (ViaPlatform e) s = fire e s"

fun processAll :: "processing list \<Rightarrow> dom_observer \<Rightarrow> dom_observer" where
  "processAll [] s = s"
| "processAll (p # ps) s = processAll ps (process p s)"

text \<open>The invocations of \<open>onDOMChange\<close> and of \<open>onSelectionChange\<close> in a trace.\<close>

fun isDOMChange :: "callback \<Rightarrow> bool" where
  "isDOMChange (DOMChange a b) = True"
| "isDOMChange c = False"

definition domChanges :: "callback list \<Rightarrow> callback list" where
  "domChanges t = filter isDOMChange t"

definition selChanges :: "callback list \<Rightarrow> callback list" where
  "selChanges t = filter (\<lambda>c. c = SelectionChange) t"

text \<open>The ranges the mutation reader resolves for a batch, nulls discarded.\<close>

definition resolvedRanges :: "docview \<Rightarrow> mutation_record list \<Rightarrow> range list" where
  "resolvedRanges v records = List.map_filter (\<lambda>r. fst (readMutation r v)) records"

text \<open>
  The range a flush merges from the combined batch, and the records \<open>flush\<close> takes
  from the mutation observer.
\<close>

definition merged :: "mutation_record list \<Rightarrow> dom_observer \<Rightarrow> int \<times> int" where
  "merged records s =
     foldl mergeStep (-1, -1) (resolvedRanges (docView s) (records @ charDataQueue s))"

definition taken :: "dom_observer \<Rightarrow> mutation_record list" where
  "taken s = (if observer s then pendingRecords s else [])"

section \<open>Concrete inputs\<close>

text \<open>
  For concrete view trees, \<open>nearest\<close> is the first node on the way up that a descriptor
  owns.
\<close>

fun nearestUp :: "dnode list \<Rightarrow> node \<Rightarrow> desc option" where
  "nearestUp f [] = None"
| "nearestUp f (i # p) = (case nodeView f (i # p) of Some d \<Rightarrow> Some d | None \<Rightarrow> nearestUp f p)"

text \<open>
  The scenario of the specification: a root element (descriptor 0) with tracked children
  A, B, C (descriptors 1, 2, 3) at positions [0,5), [5,9), [9,14), and a detached node
  that was removed between A and B.
\<close>

definition scenarioForest :: "dnode list" where
  "scenarioForest =
     [DNode (Some 0) [DNode (Some 1) [], DNode (Some 2) [], DNode (Some 3) []],
      DNode None []]"

definition scenarioSpans :: "desc \<Rightarrow> int \<times> int" where
  "scenarioSpans d = (if d = 1 then (0, 5) else if d = 2 then (5, 9) else if d = 3 then (9, 14) else (0, 14))"

definition scenarioView :: docview where
  "scenarioView =
     \<lparr>forest = scenarioForest,
      nearest = nearestUp scenarioForest,
      parent = (\<lambda>d. if d = 0 then None else Some 0),
      dom = (\<lambda>d. if d = 0 then Some [0] else Some [d - 1, 0]),
      posAtStart = (\<lambda>d. fst (scenarioSpans d)),
      posAtEnd = (\<lambda>d. snd (scenarioSpans d)),
      posBefore = (\<lambda>d c. fst (scenarioSpans c)),
      posAfter = (\<lambda>d c. snd (scenarioSpans c)),
      dirtyMarks = []\<rparr>"

definition scenarioRecord :: mutation_record where
  "scenarioRecord =
     \<lparr>rec_target = [0], rec_type = ChildList, rec_previousSibling = Some [0, 0],
      rec_nextSibling = Some [1, 0], rec_oldValue = None\<rparr>"

text \<open>A text mutation inside C, and a mutation of the detached node (no descriptor).\<close>

definition textRecord :: mutation_record where
  "textRecord =
     \<lparr>rec_target = [2, 0], rec_type = CharacterData, rec_previousSibling = None,
      rec_nextSibling = None, rec_oldValue = Some ''old''\<rparr>"

definition strayRecord :: mutation_record where
  "strayRecord =
     \<lparr>rec_target = [1], rec_type = CharacterData, rec_previousSibling = None,
      rec_nextSibling = None, rec_oldValue = None\<rparr>"

text \<open>
  A freshly constructed observer on a platform with both \<open>MutationObserver\<close> and the
  legacy character-data events; the same observer with three batched records and one
  queued legacy record; and a focused editor in which one text edit has just happened.
\<close>

definition liveState :: dom_observer where
  "liveState = constructor scenarioView True True"

definition pendingState :: dom_observer where
  "pendingState =
     fireAll [Mutated textRecord, Mutated strayRecord, Mutated scenarioRecord,
              CharDataModified [0, 0] (Some ''x'')] liveState"

definition typingState :: dom_observer where
  "typingState = fireAll [PlatformState True True, FocusEv, Mutated textRecord] liveState"

text \<open>An insertion before the first child A of the root.\<close>

definition insertFirstRecord :: mutation_record where
  "insertFirstRecord =
     \<lparr>rec_target = [0], rec_type = ChildList, rec_previousSibling = None,
      rec_nextSibling = Some [0, 0], rec_oldValue = None\<rparr>"

text \<open>A live observer that watches one element for intersection and is then destroyed.\<close>

definition destroyedState :: dom_observer where
  "destroyedState = destroy (observeIntersection [7] liveState)"

text \<open>
  What the specification calls malformed key-binding syntax: a stroke with a modifier
  that none of the five tests of \<open>normalizeKeyName\<close> accepts, and a key that one binding
  uses as its full (normalized) name and another as a proper prefix of its strokes.
\<close>

definition recognized :: "string \<Rightarrow> bool" where
  "recognized md =
     (lower md \<in> {''cmd'', ''meta'', ''m'', ''a'', ''alt'', ''c'', ''ctrl'', ''control'',
                  ''s'', ''shift'', ''mod''})"

definition strokeMalformed :: "string \<Rightarrow> bool" where
  "strokeMalformed stroke = (\<exists>md \<in> set (butlast (splitNotLast CHR ''-'' stroke)). \<not> recognized md)"

definition keyMalformed :: "string \<Rightarrow> bool" where
  "keyMalformed name = (\<exists>stroke \<in> set (splitNotLast CHR '' '' name). strokeMalformed stroke)"

definition regularKey :: "PlatformName \<Rightarrow> KeyBinding \<Rightarrow> string \<Rightarrow> bool" where
  "regularKey platform b k =
     (\<exists>name parts. bindingName platform b = Some name
        \<and> normalizeAll platform (splitNotLast CHR '' '' name) = Inr parts
        \<and> joinWith '' '' parts = k)"

definition prefixKey :: "PlatformName \<Rightarrow> KeyBinding \<Rightarrow> string \<Rightarrow> bool" where
  "prefixKey platform b k =
     (\<exists>name parts i. bindingName platform b = Some name
        \<and> normalizeAll platform (splitNotLast CHR '' '' name) = Inr parts
        \<and> 1 \<le> i \<and> i < length parts \<and> joinWith '' '' (take i parts) = k)"

definition malformedBindings :: "PlatformName \<Rightarrow> KeyBinding list \<Rightarrow> bool" where
  "malformedBindings platform bs =
     ((\<exists>b \<in> set bs. \<exists>name. bindingName platform b = Some name \<and> keyMalformed name)
      \<or> (\<exists>b1 \<in> set bs. \<exists>b2 \<in> set bs. \<exists>k. regularKey platform b1 k \<and> prefixKey platform b2 k))"

definition descriptive :: "error \<Rightarrow> bool" where
  "descriptive e =
     ((\<exists>md. e = Error (''Unrecognized modifier name: '' @ md))
      \<or> (\<exists>k. e = Error (''Key binding '' @ k @ '' is used both as a regular binding and as a multi-stroke prefix'')))"

definition simpleBinding :: "string \<Rightarrow> nat \<Rightarrow> KeyBinding" where
  "simpleBinding k c =
     \<lparr>kb_key = Some k, kb_mac = None, kb_win = None, kb_linux = None, kb_run = UserCommand c,
      kb_shift = None, kb_scope = None, kb_preventDefault = False\<rparr>"

definition badModifierState :: EditorState where
  "badModifierState = \<lparr>facetRef = 0, keymapFacet = [ [simpleBinding ''Ctrl-a'' 0], [simpleBinding ''Foo-x'' 1] ]\<rparr>"

definition prefixClashState :: EditorState where
  "prefixClashState = \<lparr>facetRef = 1, keymapFacet = [ [simpleBinding ''Ctrl-k'' 0, simpleBinding ''Ctrl-k Ctrl-d'' 1] ]\<rparr>"

definition goodState :: EditorState where
  "goodState = \<lparr>facetRef = 2, keymapFacet = [ [simpleBinding ''Mod-s'' 0, simpleBinding ''Ctrl-k Ctrl-d'' 1] ]\<rparr>"

text \<open>A dispatch that handles nothing, for the concrete runs of the key handlers.\<close>

definition noDispatch :: "Keymap \<Rightarrow> unit \<Rightarrow> string \<Rightarrow> bool" where
  "noDispatch m ev scope = False"

section \<open>Properties\<close>

subsection \<open>The mutation reader ignores dirty marks\<close>

lemma ownedBy_marks [simp]: "ownedBy (v\<lparr>dirtyMarks := m\<rparr>) desc c = ownedBy v desc c"
  by (simp add: ownedBy_def split: option.splits)

lemma findChild_marks [simp]: "findChild (v\<lparr>dirtyMarks := m\<rparr>) desc n dir = findChild v desc n dir"
proof (induction v desc n dir rule: findChild.induct)
  case (1 v desc dir)
  show ?case by simp
next
  case (2 v desc n dir)
  show ?case
  proof (cases "ownedBy v desc (nodeView (forest v) n)")
    case True
    then show ?thesis by simp
  next
    case False
    from 2 [OF refl _ refl] False
    have "findChild (v\<lparr>dirtyMarks := m\<rparr>) desc
            (if parentNode n \<noteq> dom v desc then parentNode n
             else if 0 < dir then nextSibling (forest v) n else previousSibling (forest v) n) dir =
          findChild v desc
            (if parentNode n \<noteq> dom v desc then parentNode n
             else if 0 < dir then nextSibling (forest v) n else previousSibling (forest v) n) dir"
      by simp
    with False show ?thesis by (auto simp: Let_def split: if_splits)
  qed
qed

lemma readMutation_marks [simp]:
  "fst (readMutation r (v\<lparr>dirtyMarks := m\<rparr>)) = fst (readMutation r v)"
  by (simp add: readMutation_def markDirty_def Let_def split: option.splits)

lemma readMutation_view:
  "snd (readMutation r v) = v\<lparr>dirtyMarks := dirtyMarks (snd (readMutation r v))\<rparr>"
  by (simp add: readMutation_def markDirty_def Let_def split: option.splits)

lemma readMutation_dirty:
  "dirtyMarks (snd (readMutation r v)) =
     (case nearest v (rec_target r) of None \<Rightarrow> dirtyMarks v | Some d \<Rightarrow> dirtyMarks v @ [d])"
  by (simp add: readMutation_def markDirty_def Let_def split: option.splits)

lemma readMutation_resolves:
  "(fst (readMutation r v) = None) = (nearest v (rec_target r) = None)"
  by (simp add: readMutation_def markDirty_def Let_def split: option.splits)

lemma resolvedRanges_Nil [simp]: "resolvedRanges v [] = []"
  by (simp add: resolvedRanges_def map_filter_simps)

lemma resolvedRanges_Cons:
  "resolvedRanges v (r # rs) =
     (case fst (readMutation r v) of None \<Rightarrow> resolvedRanges v rs | Some rg \<Rightarrow> rg # resolvedRanges v rs)"
  by (simp add: resolvedRanges_def map_filter_simps split: option.splits)

lemma resolvedRanges_marks [simp]: "resolvedRanges (v\<lparr>dirtyMarks := m\<rparr>) rs = resolvedRanges v rs"
  by (simp add: resolvedRanges_def)

lemma readRecords_fst:
  "fst (readRecords rs acc v) = foldl mergeStep acc (resolvedRanges v rs)"
proof (induction rs arbitrary: acc v)
  case Nil
  show ?case by simp
next
  case (Cons r rs)
  obtain rg v' where rm: "readMutation r v = (rg, v')" by (cases "readMutation r v")
  have "v' = v\<lparr>dirtyMarks := dirtyMarks v'\<rparr>"
    using readMutation_view [of r v] rm by simp
  then have res: "resolvedRanges v' rs = resolvedRanges v rs"
    using resolvedRanges_marks [where v = v and m = "dirtyMarks v'" and rs = rs] by simp
  show ?case
    using rm Cons.IH [of _ v'] res
    by (cases rg) (simp_all add: resolvedRanges_Cons)
qed

lemma readMutation_view_ex: "\<exists>m. snd (readMutation r v) = v\<lparr>dirtyMarks := m\<rparr>"
  by (rule exI [of _ "dirtyMarks (snd (readMutation r v))"]) (rule readMutation_view)

lemma readRecords_view_ex: "\<exists>m. snd (readRecords rs acc v) = v\<lparr>dirtyMarks := m\<rparr>"
proof (induction rs arbitrary: acc v)
  case Nil
  show ?case by (rule exI [of _ "dirtyMarks v"]) simp
next
  case (Cons r rs)
  obtain rg v' where rm: "readMutation r v = (rg, v')" by (cases "readMutation r v")
  obtain m1 where v': "v' = v\<lparr>dirtyMarks := m1\<rparr>"
    using readMutation_view_ex [of r v] rm by auto
  have "\<exists>m. snd (readRecords rs a v') = v\<lparr>dirtyMarks := m\<rparr>" for a
    using Cons.IH [of a v'] unfolding v' by simp
  then show ?case
    using rm by (cases rg) simp_all
qed


subsection \<open>The merge\<close>

lemma mergeStep_nonneg:
  "0 \<le> fst acc \<Longrightarrow> mergeStep acc rg = (min (r_from rg) (fst acc), max (r_to rg) (snd acc))"
  by (simp add: mergeStep_def)

lemma foldl_mergeStep_nonneg:
  "0 \<le> fst acc \<Longrightarrow> \<forall>rg \<in> set rgs. 0 \<le> r_from rg \<Longrightarrow>
   foldl mergeStep acc rgs =
     (Min (insert (fst acc) (r_from ` set rgs)), Max (insert (snd acc) (r_to ` set rgs)))"
proof (induction rgs arbitrary: acc)
  case Nil
  show ?case by simp
next
  case (Cons rg rgs)
  have step: "mergeStep acc rg = (min (r_from rg) (fst acc), max (r_to rg) (snd acc))"
    using Cons.prems(1) by (rule mergeStep_nonneg)
  have nn: "0 \<le> fst (mergeStep acc rg)"
    using Cons.prems step by simp
  have "foldl mergeStep (mergeStep acc rg) rgs =
      (Min (insert (fst (mergeStep acc rg)) (r_from ` set rgs)),
       Max (insert (snd (mergeStep acc rg)) (r_to ` set rgs)))"
    using Cons.IH [OF nn] Cons.prems(2) by simp
  moreover have "Min (insert (min (r_from rg) (fst acc)) (r_from ` set rgs)) =
      Min (insert (fst acc) (insert (r_from rg) (r_from ` set rgs)))"
    by (cases "rgs = []") (simp_all add: min.commute min.left_commute min.assoc)
  moreover have "Max (insert (max (r_to rg) (snd acc)) (r_to ` set rgs)) =
      Max (insert (snd acc) (insert (r_to rg) (r_to ` set rgs)))"
    by (cases "rgs = []") (simp_all add: max.commute max.left_commute max.assoc)
  ultimately show ?case using step by simp
qed

lemma foldl_mergeStep_sentinel:
  assumes "rgs \<noteq> []" and "\<forall>rg \<in> set rgs. 0 \<le> r_from rg"
  shows "foldl mergeStep (-1, -1) rgs = (Min (r_from ` set rgs), Max (r_to ` set rgs))"
proof (cases rgs)
  case Nil
  with assms show ?thesis by simp
next
  case (Cons rg rest)
  have "foldl mergeStep (-1, -1) rgs = foldl mergeStep (r_from rg, r_to rg) rest"
    using Cons by (simp add: mergeStep_def)
  also have "\<dots> = (Min (insert (r_from rg) (r_from ` set rest)), Max (insert (r_to rg) (r_to ` set rest)))"
    using foldl_mergeStep_nonneg [of "(r_from rg, r_to rg)" rest] assms(2) Cons by simp
  finally show ?thesis using Cons by simp
qed

lemma resolvedRanges_mset:
  "mset rs' = mset rs \<Longrightarrow> mset (resolvedRanges v rs') = mset (resolvedRanges v rs)"
  by (simp add: resolvedRanges_def map_filter_def)

lemma resolvedRanges_append:
  "resolvedRanges v (xs @ ys) = resolvedRanges v xs @ resolvedRanges v ys"
  by (simp add: resolvedRanges_def map_filter_def)

subsection \<open>One flush\<close>

lemma drainCharData_eq:
  "drainCharData records s =
     (records @ charDataQueue s,
      s\<lparr>timers := (if charDataQueue s = [] then timers s else clearTimeout (charDataTimeout s) (timers s)),
        charDataTimeout := (if charDataQueue s = [] then charDataTimeout s else None),
        charDataQueue := []\<rparr>)"
  by (simp add: drainCharData_def)

lemma applyMutations_unfold:
  assumes "readRecords (records @ charDataQueue s) (-1, -1) (docView s) = ((f, t), v)"
  shows "applyMutations records s =
     (if records @ charDataQueue s = [] then (False, snd (drainCharData records s))
      else (f > -1 \<and> active s,
            (snd (drainCharData records s))
              \<lparr>docView := (if dirty v then sync v else v),
               trace := trace s @ (if f > -1 \<and> active s then [DOMChange f t] else [])
                          @ (if dirty v then [Sync] else [])\<rparr>))"
  using assms by (simp add: applyMutations_def drainCharData_eq Let_def)

lemma applyMutations_cases:
  obtains (idle) "records @ charDataQueue s = []"
      "applyMutations records s = (False, snd (drainCharData records s))"
  | (batch) v where "records @ charDataQueue s \<noteq> []"
      "applyMutations records s =
         (fst (merged records s) > -1 \<and> active s,
          (snd (drainCharData records s))
            \<lparr>docView := (if dirty v then sync v else v),
             trace := trace s @ (if fst (merged records s) > -1 \<and> active s
                                 then [DOMChange (fst (merged records s)) (snd (merged records s))] else [])
                        @ (if dirty v then [Sync] else [])\<rparr>)"
      "v = snd (readRecords (records @ charDataQueue s) (-1, -1) (docView s))"
proof -
  obtain f t v where rr: "readRecords (records @ charDataQueue s) (-1, -1) (docView s) = ((f, t), v)"
    by (metis surj_pair)
  have m: "merged records s = (f, t)"
    using readRecords_fst [of "records @ charDataQueue s" "(-1, -1)" "docView s"] rr
    by (simp add: merged_def)
  show thesis
  proof (cases "records @ charDataQueue s = []")
    case True
    then show ?thesis using idle applyMutations_unfold [OF rr] by simp
  next
    case False
    have e: "applyMutations records s =
         (f > -1 \<and> active s,
          (snd (drainCharData records s))
            \<lparr>docView := (if dirty v then sync v else v),
             trace := trace s @ (if f > -1 \<and> active s then [DOMChange f t] else [])
                        @ (if dirty v then [Sync] else [])\<rparr>)"
      unfolding applyMutations_unfold [OF rr] by (rule if_not_P [OF False])
    have v: "v = snd (readRecords (records @ charDataQueue s) (-1, -1) (docView s))"
      unfolding rr by simp
    show ?thesis
      apply (rule batch [OF False _ v])
      unfolding m fst_conv snd_conv
      by (rule e)
  qed
qed

lemma applyMutations_applied:
  "fst (applyMutations records s) =
     (records @ charDataQueue s \<noteq> [] \<and> fst (merged records s) > -1 \<and> active s)"
  by (cases records s rule: applyMutations_cases) simp_all

lemma applyMutations_domChanges:
  "domChanges (trace (snd (applyMutations records s))) =
     domChanges (trace s) @
       (if fst (applyMutations records s)
        then [DOMChange (fst (merged records s)) (snd (merged records s))] else [])"
  by (cases records s rule: applyMutations_cases) (simp_all add: drainCharData_eq domChanges_def)

lemma applyMutations_selChanges [simp]:
  "selChanges (trace (snd (applyMutations records s))) = selChanges (trace s)"
  by (cases records s rule: applyMutations_cases) (simp_all add: drainCharData_eq selChanges_def)

lemma applyMutations_frame [simp]:
  "active (snd (applyMutations records s)) = active s"
  "observer (snd (applyMutations records s)) = observer s"
  "useCharData (snd (applyMutations records s)) = useCharData s"
  "listening (snd (applyMutations records s)) = listening s"
  "observing (snd (applyMutations records s)) = observing s"
  "pendingRecords (snd (applyMutations records s)) = pendingRecords s"
  "charDataListener (snd (applyMutations records s)) = charDataListener s"
  "selectionListener (snd (applyMutations records s)) = selectionListener s"
  "focusBlurListeners (snd (applyMutations records s)) = focusBlurListeners s"
  "intersectionObserved (snd (applyMutations records s)) = intersectionObserved s"
  "intersectionQueue (snd (applyMutations records s)) = intersectionQueue s"
  "rootFocused (snd (applyMutations records s)) = rootFocused s"
  "hasSelection (snd (applyMutations records s)) = hasSelection s"
  "nextTimer (snd (applyMutations records s)) = nextTimer s"
  by (cases records s rule: applyMutations_cases; simp add: drainCharData_eq)+

lemma applyMutations_queue [simp]:
  "charDataQueue (snd (applyMutations records s)) = []"
  by (cases records s rule: applyMutations_cases) (simp_all add: drainCharData_eq)

lemma applyMutations_timeout:
  "charDataTimeout (snd (applyMutations records s)) =
     (if charDataQueue s = [] then charDataTimeout s else None)"
  by (cases records s rule: applyMutations_cases) (simp_all add: drainCharData_eq)

lemma applyMutations_timers:
  "timers (snd (applyMutations records s)) =
     (if charDataQueue s = [] then timers s else clearTimeout (charDataTimeout s) (timers s))"
  by (cases records s rule: applyMutations_cases) (simp_all add: drainCharData_eq)

lemma merged_pending [simp]: "merged records (s\<lparr>pendingRecords := p\<rparr>) = merged records s"
  by (simp add: merged_def)

lemma flush_applied:
  "fst (flush s) = (taken s @ charDataQueue s \<noteq> [] \<and> fst (merged (taken s) s) > -1 \<and> active s)"
  by (simp add: flush_def taken_def applyMutations_applied)

lemma flush_domChanges:
  "domChanges (trace (snd (flush s))) =
     domChanges (trace s) @
       (if fst (flush s) then [DOMChange (fst (merged (taken s) s)) (snd (merged (taken s) s))] else [])"
  by (simp add: flush_def taken_def applyMutations_domChanges)

lemma flush_selChanges [simp]: "selChanges (trace (snd (flush s))) = selChanges (trace s)"
  by (simp add: flush_def)

lemma flush_frame [simp]:
  "active (snd (flush s)) = active s"
  "observer (snd (flush s)) = observer s"
  "useCharData (snd (flush s)) = useCharData s"
  "listening (snd (flush s)) = listening s"
  "observing (snd (flush s)) = observing s"
  "charDataListener (snd (flush s)) = charDataListener s"
  "selectionListener (snd (flush s)) = selectionListener s"
  "focusBlurListeners (snd (flush s)) = focusBlurListeners s"
  "intersectionObserved (snd (flush s)) = intersectionObserved s"
  "intersectionQueue (snd (flush s)) = intersectionQueue s"
  "rootFocused (snd (flush s)) = rootFocused s"
  "hasSelection (snd (flush s)) = hasSelection s"
  "nextTimer (snd (flush s)) = nextTimer s"
  by (simp_all add: flush_def)

lemma flush_queue [simp]: "charDataQueue (snd (flush s)) = []"
  by (simp add: flush_def)

lemma flush_timeout:
  "charDataTimeout (snd (flush s)) = (if charDataQueue s = [] then charDataTimeout s else None)"
  by (simp add: flush_def applyMutations_timeout)

lemma flush_timers:
  "timers (snd (flush s)) =
     (if charDataQueue s = [] then timers s else clearTimeout (charDataTimeout s) (timers s))"
  by (simp add: flush_def applyMutations_timers)

lemma flush_pending: "observer s \<Longrightarrow> pendingRecords (snd (flush s)) = []"
  by (simp add: flush_def)

subsection \<open>Nothing is forwarded while inactive\<close>

lemma applyMutations_inactive:
  "\<not> active s \<Longrightarrow> \<not> fst (applyMutations records s) \<and>
     domChanges (trace (snd (applyMutations records s))) = domChanges (trace s)"
  by (simp add: applyMutations_applied applyMutations_domChanges)

lemma flush_inactive:
  "\<not> active s \<Longrightarrow> \<not> fst (flush s) \<and> domChanges (trace (snd (flush s))) = domChanges (trace s)"
  by (simp add: flush_applied flush_domChanges)

lemma readSelection_inactive: "\<not> active s \<Longrightarrow> readSelection s = s"
  by (simp add: readSelection_def)

lemma fire_inactive:
  assumes "\<not> active s"
  shows "\<not> active (fire e s) \<and> domChanges (trace (fire e s)) = domChanges (trace s)
     \<and> selChanges (trace (fire e s)) = selChanges (trace s)"
proof (cases e)
  case (Mutated r)
  with assms show ?thesis by simp
next
  case ObserverCallback
  with assms show ?thesis by (simp add: applyMutations_inactive)
next
  case (CharDataModified tgt prev)
  with assms show ?thesis by (simp add: onCharData_def Let_def)
next
  case (TimerFired h)
  with assms show ?thesis by (simp add: flush_inactive)
next
  case SelectionChangeEv
  with assms show ?thesis by (simp add: readSelection_inactive)
next
  case FocusEv
  with assms show ?thesis by (simp add: onFocus_def readSelection_inactive Let_def)
next
  case BlurEv
  with assms show ?thesis by (simp add: onBlur_def)
next
  case (Intersected r)
  with assms show ?thesis by simp
next
  case IntersectionCallback
  with assms show ?thesis by (simp add: onIntersection_def domChanges_def selChanges_def)
next
  case (PlatformState f sel)
  with assms show ?thesis by simp
qed

lemma process_inactive:
  assumes "\<not> active s"
  shows "\<not> active (process p s) \<and> domChanges (trace (process p s)) = domChanges (trace s)
     \<and> selChanges (trace (process p s)) = selChanges (trace s)"
proof (cases p)
  case ViaFlush
  with assms show ?thesis by (simp add: flush_inactive)
next
  case (ViaApplyMutations records)
  with assms show ?thesis by (simp add: applyMutations_inactive)
next
  case (ViaPlatform e)
  with assms show ?thesis using fire_inactive [of s e] by simp
qed

lemma processAll_inactive:
  "\<not> active s \<Longrightarrow> \<not> active (processAll ps s) \<and> domChanges (trace (processAll ps s)) = domChanges (trace s)
     \<and> selChanges (trace (processAll ps s)) = selChanges (trace s)"
proof (induction ps arbitrary: s)
  case Nil
  then show ?case by simp
next
  case (Cons p ps)
  from process_inactive [OF Cons.prems, of p] Cons.IH [of "process p s"]
  show ?case by simp
qed

lemma fireAll_inactive:
  "\<not> active s \<Longrightarrow> \<not> active (fireAll es s) \<and> domChanges (trace (fireAll es s)) = domChanges (trace s)
     \<and> selChanges (trace (fireAll es s)) = selChanges (trace s)"
proof (induction es arbitrary: s)
  case Nil
  then show ?case by simp
next
  case (Cons e es)
  from fire_inactive [OF Cons.prems, of e] Cons.IH [of "fire e s"]
  show ?case by simp
qed

lemmas scenario_defs =
  scenarioForest_def scenarioSpans_def scenarioView_def scenarioRecord_def textRecord_def
  strayRecord_def nodeView_def nodeAt_def ownedBy_def orElse_def markDirty_def
  liveState_def pendingState_def

lemmas observer_defs =
  constructor_def start_def stop_def flush_def applyMutations_def drainCharData_def
  listenForSelectionChanges_def readSelection_def onCharData_def onFocus_def onBlur_def
  onIntersection_def observeIntersection_def destroy_def clearTimeout_def dirty_def sync_def
  mergeStep_def readMutation_def Let_def

subsection \<open>Lifecycle\<close>

lemma start_active [simp]: "active (start s)"
  by (simp add: start_def Let_def)

lemma dirty_sync [simp]: "\<not> dirty (sync v)"
  by (simp add: dirty_def sync_def)

lemma applyMutations_clean:
  "records @ charDataQueue s \<noteq> [] \<Longrightarrow> \<not> dirty (docView (snd (applyMutations records s)))"
  by (cases records s rule: applyMutations_cases) (simp_all add: drainCharData_eq)

lemma flush_clean:
  "taken s @ charDataQueue s \<noteq> [] \<Longrightarrow> \<not> dirty (docView (snd (flush s)))"
  by (simp add: flush_def taken_def applyMutations_clean split: if_splits)

lemma stop_active_eq:
  "active s \<Longrightarrow> observer s \<Longrightarrow>
   stop s = (let s2 = (snd (flush (s\<lparr>active := False\<rparr>)))\<lparr>observing := False, pendingRecords := []\<rparr>
             in if useCharData s then s2\<lparr>charDataListener := False\<rparr> else s2)"
  by (simp add: stop_def Let_def)

lemma stop_inactive [simp]: "\<not> active (stop s)"
  by (simp add: stop_def Let_def)

lemma taken_active [simp]: "taken (s\<lparr>active := b\<rparr>) = taken s"
  by (simp add: taken_def)

lemma stop_effect:
  assumes "active s" and "observer s"
  shows "domChanges (trace (stop s)) = domChanges (trace s)
     \<and> \<not> active (stop s) \<and> \<not> observing (stop s)
     \<and> pendingRecords (stop s) = [] \<and> charDataQueue (stop s) = []
     \<and> (charDataQueue s \<noteq> [] \<longrightarrow>
          charDataTimeout (stop s) = None
          \<and> (\<forall>h. charDataTimeout s = Some h \<longrightarrow> h \<notin> set (timers (stop s))))
     \<and> (pendingRecords s @ charDataQueue s \<noteq> [] \<longrightarrow> \<not> dirty (docView (stop s)))
     \<and> (useCharData s \<longrightarrow> \<not> charDataListener (stop s))"
proof -
  let ?p = "s\<lparr>active := False\<rparr>"
  have inact: "\<not> active ?p" by simp
  have tk: "taken ?p = pendingRecords s" using assms(2) by (simp add: taken_def)
  have clean: "pendingRecords s @ charDataQueue s \<noteq> [] \<Longrightarrow> \<not> dirty (docView (snd (flush ?p)))"
    using flush_clean [of ?p] tk by simp
  show ?thesis
    using flush_inactive [OF inact] clean assms
    by (simp add: stop_active_eq Let_def flush_timeout flush_timers clearTimeout_def)
qed

subsection \<open>Key binding evaluation\<close>

lemmas keymap_defs =
  normalizeKeyName_def lower_def lowerChar_def checkPrefix_def add_def bindingName_def
  bindingScopes_def buildKeymap_def getKeymap_def keydown_def runScopeHandlers_def
  simpleBinding_def badModifierState_def prefixClashState_def goodState_def Let_def

subsection \<open>Key names\<close>

lemma readModifiers_unrecognized:
  "\<exists>md \<in> set mods. \<not> recognized md \<Longrightarrow>
   \<exists>md. readModifiers platform mods ms = Inl (Error (''Unrecognized modifier name: '' @ md))"
proof (induction mods arbitrary: ms)
  case Nil
  then show ?case by simp
next
  case (Cons m mods)
  show ?case
  proof (cases "recognized m")
    case True
    with Cons.prems have "\<exists>md \<in> set mods. \<not> recognized md" by auto
    from Cons.IH [OF this] True show ?thesis
      by (auto simp: recognized_def)
  next
    case False
    then show ?thesis by (auto simp: recognized_def)
  qed
qed

lemma readModifiers_error:
  "readModifiers platform mods ms = Inl e \<Longrightarrow> descriptive e"
proof (induction mods arbitrary: ms)
  case Nil
  then show ?case by simp
next
  case (Cons m mods)
  then show ?case
    by (auto simp: descriptive_def split: if_splits)
qed

lemma normalizeKeyName_malformed:
  "strokeMalformed stroke \<Longrightarrow>
   \<exists>md. normalizeKeyName stroke platform = Inl (Error (''Unrecognized modifier name: '' @ md))"
proof -
  assume "strokeMalformed stroke"
  then have "\<exists>md \<in> set (butlast (splitNotLast CHR ''-'' stroke)). \<not> recognized md"
    by (simp add: strokeMalformed_def)
  from readModifiers_unrecognized [OF this, of platform
      "\<lparr>m_alt = False, m_ctrl = False, m_shift = False, m_meta = False\<rparr>"]
  obtain md where "readModifiers platform (butlast (splitNotLast CHR ''-'' stroke))
      \<lparr>m_alt = False, m_ctrl = False, m_shift = False, m_meta = False\<rparr> =
      Inl (Error (''Unrecognized modifier name: '' @ md))" by blast
  then show ?thesis by (simp add: normalizeKeyName_def Let_def)
qed

lemma normalizeKeyName_error:
  "normalizeKeyName stroke platform = Inl e \<Longrightarrow> descriptive e"
  by (auto simp: normalizeKeyName_def Let_def split: sum.splits dest: readModifiers_error)

lemma normalizeAll_error:
  "normalizeAll platform strokes = Inl e \<Longrightarrow> descriptive e"
  by (induction strokes arbitrary: e) (auto split: sum.splits dest: normalizeKeyName_error)

lemma normalizeAll_malformed:
  "\<exists>stroke \<in> set strokes. strokeMalformed stroke \<Longrightarrow> \<exists>e. normalizeAll platform strokes = Inl e"
proof (induction strokes)
  case Nil
  then show ?case by simp
next
  case (Cons k ks)
  show ?case
  proof (cases "normalizeKeyName k platform")
    case (Inl e)
    then show ?thesis by simp
  next
    case (Inr n)
    then have "\<not> strokeMalformed k"
      using normalizeKeyName_malformed [of k platform] by auto
    with Cons.prems have "\<exists>stroke \<in> set ks. strokeMalformed stroke" by auto
    from Cons.IH [OF this] Inr show ?thesis by auto
  qed
qed

subsection \<open>Adding bindings\<close>

lemma checkPrefix_error: "checkPrefix name is ip = Inl e \<Longrightarrow> descriptive e"
  by (auto simp: checkPrefix_def descriptive_def split: option.splits if_splits)

lemma checkPrefix_keeps:
  "checkPrefix name is ip = Inr ip' \<Longrightarrow> ip k = Some w \<Longrightarrow> ip' k = Some w"
  by (auto simp: checkPrefix_def split: option.splits if_splits)

lemma checkPrefix_sets:
  "checkPrefix name is ip = Inr ip' \<Longrightarrow> ip' name = Some is"
  by (auto simp: checkPrefix_def split: option.splits if_splits)

lemma addPrefixes_error:
  "addPrefixes scope parts idxs st = Inl e \<Longrightarrow> descriptive e"
proof (induction scope parts idxs st rule: addPrefixes.induct)
  case (1 scope parts st)
  then show ?case by simp
next
  case (2 scope parts i "is" scopeObj isPrefix)
  then show ?case
    by (auto simp: Let_def split: sum.splits if_splits dest: checkPrefix_error)
qed

lemma addPrefixes_keeps:
  "addPrefixes scope parts idxs st = Inr st' \<Longrightarrow> snd st k = Some w \<Longrightarrow> snd st' k = Some w"
proof (induction scope parts idxs st rule: addPrefixes.induct)
  case (1 scope parts st)
  then show ?case by simp
next
  case (2 scope parts i "is" scopeObj isPrefix)
  then show ?case
    by (auto simp: Let_def split: sum.splits if_splits dest: checkPrefix_keeps)
qed

lemma addPrefixes_sets:
  "addPrefixes scope parts idxs st = Inr st' \<Longrightarrow> i \<in> set idxs \<Longrightarrow>
   snd st' (joinWith '' '' (take i parts)) = Some True"
proof (induction scope parts idxs st rule: addPrefixes.induct)
  case (1 scope parts st)
  then show ?case by simp
next
  case (2 scope parts j "is" scopeObj isPrefix)
  obtain ip' where cp: "checkPrefix (joinWith '' '' (take j parts)) True isPrefix = Inr ip'"
    using "2.prems"(1) by (auto simp: Let_def split: sum.splits)
  let ?so = "if scopeObj (joinWith '' '' (take j parts)) = None
             then scopeObj(joinWith '' '' (take j parts) \<mapsto>
                    \<lparr>preventDefault = True, commands = [StorePrefix (joinWith '' '' (take j parts)) scope]\<rparr>)
             else scopeObj"
  have rest: "addPrefixes scope parts is (?so, ip') = Inr st'"
    using "2.prems"(1) cp by (simp add: Let_def)
  show ?case
  proof (cases "i = j")
    case True
    have "ip' (joinWith '' '' (take j parts)) = Some True"
      using cp by (rule checkPrefix_sets)
    then show ?thesis
      using addPrefixes_keeps [OF rest, of "joinWith '' '' (take j parts)" True] True by simp
  next
    case False
    with "2.prems"(2) have "i \<in> set is" by simp
    from "2.IH" [OF refl cp rest this] show ?thesis .
  qed
qed


lemma add_error: "add platform scope key c pd st = Inl e \<Longrightarrow> descriptive e"
  by (auto simp: add_def Let_def split: sum.splits prod.splits
      dest: normalizeAll_error addPrefixes_error checkPrefix_error)

lemma add_malformed:
  "keyMalformed key \<Longrightarrow> \<exists>e. add platform scope key c pd st = Inl e"
  using normalizeAll_malformed [of "splitNotLast CHR '' '' key" platform]
  by (auto simp: keyMalformed_def add_def Let_def)

lemma add_unfold:
  assumes "add platform scope key c pd st = Inr st'"
  obtains parts so1 ip1 where
    "normalizeAll platform (splitNotLast CHR '' '' key) = Inr parts"
    "addPrefixes scope parts [1..<length parts]
       (case fst st scope of Some obj \<Rightarrow> obj | None \<Rightarrow> Map.empty, snd st) = Inr (so1, ip1)"
    "checkPrefix (joinWith '' '' parts) False ip1 = Inr (snd st')"
  using assms by (auto simp: add_def Let_def split: sum.splits prod.splits)

lemma add_keeps:
  assumes "add platform scope key c pd st = Inr st'" and "snd st k = Some w"
  shows "snd st' k = Some w"
proof -
  from assms(1) obtain parts so1 ip1 where
    ap: "addPrefixes scope parts [1..<length parts]
       (case fst st scope of Some obj \<Rightarrow> obj | None \<Rightarrow> Map.empty, snd st) = Inr (so1, ip1)"
    and cp: "checkPrefix (joinWith '' '' parts) False ip1 = Inr (snd st')"
    by (rule add_unfold)
  have "ip1 k = Some w"
    using addPrefixes_keeps [OF ap, of k w] assms(2) by simp
  with cp show ?thesis by (rule checkPrefix_keeps)
qed

lemma add_regular:
  assumes "add platform scope key c pd st = Inr st'"
    and "normalizeAll platform (splitNotLast CHR '' '' key) = Inr parts"
  shows "snd st' (joinWith '' '' parts) = Some False"
proof -
  from assms(1) obtain parts' so1 ip1 where
    na: "normalizeAll platform (splitNotLast CHR '' '' key) = Inr parts'"
    and cp: "checkPrefix (joinWith '' '' parts') False ip1 = Inr (snd st')"
    by (rule add_unfold)
  from na assms(2) have "parts' = parts" by simp
  with cp show ?thesis using checkPrefix_sets by fastforce
qed

lemma add_prefix:
  assumes "add platform scope key c pd st = Inr st'"
    and "normalizeAll platform (splitNotLast CHR '' '' key) = Inr parts"
    and "1 \<le> i" and "i < length parts"
  shows "snd st' (joinWith '' '' (take i parts)) = Some True"
proof -
  from assms(1) obtain parts' so1 ip1 where
    na: "normalizeAll platform (splitNotLast CHR '' '' key) = Inr parts'"
    and ap: "addPrefixes scope parts' [1..<length parts']
       (case fst st scope of Some obj \<Rightarrow> obj | None \<Rightarrow> Map.empty, snd st) = Inr (so1, ip1)"
    and cp: "checkPrefix (joinWith '' '' parts') False ip1 = Inr (snd st')"
    by (rule add_unfold)
  from na assms(2) have p: "parts' = parts" by simp
  have "i \<in> set [1..<length parts]" using assms(3,4) by simp
  from addPrefixes_sets [OF ap [unfolded p] this]
  have "ip1 (joinWith '' '' (take i parts)) = Some True" by simp
  with cp show ?thesis by (rule checkPrefix_keeps)
qed

lemma addScopes_error:
  "addScopes platform b name scopes st = Inl e \<Longrightarrow> descriptive e"
  by (induction scopes arbitrary: st)
     (auto split: sum.splits option.splits dest: add_error)

lemma addScopes_keeps:
  "addScopes platform b name scopes st = Inr st' \<Longrightarrow> snd st k = Some w \<Longrightarrow> snd st' k = Some w"
proof (induction scopes arbitrary: st)
  case Nil
  then show ?case by simp
next
  case (Cons scope scopes)
  from Cons.prems(1) obtain st1 where
    a1: "add platform scope name (kb_run b) (kb_preventDefault b) st = Inr st1"
    by (auto split: sum.splits)
  have k1: "snd st1 k = Some w" using add_keeps [OF a1 Cons.prems(2)] .
  show ?case
  proof (cases "kb_shift b")
    case None
    with Cons.prems(1) a1 have "addScopes platform b name scopes st1 = Inr st'" by simp
    from Cons.IH [OF this k1] show ?thesis .
  next
    case (Some sh)
    with Cons.prems(1) a1 obtain st2 where
      a2: "add platform scope (''Shift-'' @ name) sh (kb_preventDefault b) st1 = Inr st2"
      and r: "addScopes platform b name scopes st2 = Inr st'"
      by (auto split: sum.splits)
    from Cons.IH [OF r add_keeps [OF a2 k1]] show ?thesis .
  qed
qed

lemma addScopes_first:
  assumes "addScopes platform b name scopes st = Inr st'" and "scopes \<noteq> []"
  shows "\<exists>st1. add platform (hd scopes) name (kb_run b) (kb_preventDefault b) st = Inr st1
    \<and> (\<forall>k w. snd st1 k = Some w \<longrightarrow> snd st' k = Some w)"
proof -
  from assms(2) obtain scope rest where sc: "scopes = scope # rest" by (cases scopes) auto
  from assms(1) sc obtain st1 where
    a1: "add platform scope name (kb_run b) (kb_preventDefault b) st = Inr st1"
    by (auto split: sum.splits)
  have keep: "snd st' k = Some w" if k1: "snd st1 k = Some w" for k w
  proof (cases "kb_shift b")
    case None
    with assms(1) sc a1 have "addScopes platform b name rest st1 = Inr st'" by simp
    from addScopes_keeps [OF this k1] show ?thesis .
  next
    case (Some sh)
    with assms(1) sc a1 obtain st2 where
      a2: "add platform scope (''Shift-'' @ name) sh (kb_preventDefault b) st1 = Inr st2"
      and r: "addScopes platform b name rest st2 = Inr st'"
      by (auto split: sum.splits)
    from addScopes_keeps [OF r add_keeps [OF a2 k1]] show ?thesis .
  qed
  show ?thesis using a1 keep sc by auto
qed

lemma addScopes_malformed:
  "keyMalformed name \<Longrightarrow> scopes \<noteq> [] \<Longrightarrow> \<exists>e. addScopes platform b name scopes st = Inl e"
  using add_malformed [of name platform "hd scopes" "kb_run b" "kb_preventDefault b" st]
  by (cases scopes) auto

lemma splitAll_nonempty: "splitAll c s \<noteq> []"
  by (induction s) (auto split: list.splits)

lemma bindingScopes_nonempty: "bindingScopes b \<noteq> []"
  by (simp add: bindingScopes_def splitAll_nonempty split: option.splits)

subsection \<open>Building the keymap\<close>

lemma buildLoop_error: "buildLoop platform bs st = Inl e \<Longrightarrow> descriptive e"
  by (induction bs arbitrary: st)
     (auto split: option.splits sum.splits dest: addScopes_error)

lemma buildLoop_keeps:
  "buildLoop platform bs st = Inr st' \<Longrightarrow> snd st k = Some w \<Longrightarrow> snd st' k = Some w"
proof (induction bs arbitrary: st)
  case Nil
  then show ?case by simp
next
  case (Cons b bs)
  show ?case
  proof (cases "bindingName platform b")
    case None
    with Cons.prems(1) have "buildLoop platform bs st = Inr st'" by simp
    from Cons.IH [OF this Cons.prems(2)] show ?thesis .
  next
    case (Some name)
    with Cons.prems(1) obtain st1 where
      a: "addScopes platform b name (bindingScopes b) st = Inr st1"
      and r: "buildLoop platform bs st1 = Inr st'"
      by (auto split: sum.splits)
    from Cons.IH [OF r addScopes_keeps [OF a Cons.prems(2)]] show ?thesis .
  qed
qed

lemma buildLoop_malformed:
  "b \<in> set bs \<Longrightarrow> bindingName platform b = Some name \<Longrightarrow> keyMalformed name \<Longrightarrow>
   \<exists>e. buildLoop platform bs st = Inl e"
proof (induction bs arbitrary: st)
  case Nil
  then show ?case by simp
next
  case (Cons b' bs)
  show ?case
  proof (cases "b = b'")
    case True
    obtain e where "addScopes platform b' name (bindingScopes b') st = Inl e"
      using addScopes_malformed [OF Cons.prems(3) bindingScopes_nonempty] by blast
    with Cons.prems(2) True show ?thesis by simp
  next
    case False
    with Cons.prems have "b \<in> set bs" by simp
    from Cons.IH [OF this Cons.prems(2,3)] show ?thesis
      by (auto split: option.splits sum.splits)
  qed
qed

lemma buildLoop_marks:
  assumes "buildLoop platform bs st = Inr st'" and "b \<in> set bs"
  shows "(regularKey platform b k \<longrightarrow> snd st' k = Some False)
       \<and> (prefixKey platform b k \<longrightarrow> snd st' k = Some True)"
  using assms
proof (induction bs arbitrary: st)
  case Nil
  then show ?case by simp
next
  case (Cons b' bs)
  show ?case
  proof (cases "bindingName platform b'")
    case None
    with Cons.prems(1) have r: "buildLoop platform bs st = Inr st'" by simp
    have "b \<noteq> b' \<or> (\<not> regularKey platform b k \<and> \<not> prefixKey platform b k)"
      using None by (auto simp: regularKey_def prefixKey_def)
    then show ?thesis
      using Cons.IH [OF r] Cons.prems(2) by auto
  next
    case (Some name)
    with Cons.prems(1) obtain st1 where
      a: "addScopes platform b' name (bindingScopes b') st = Inr st1"
      and r: "buildLoop platform bs st1 = Inr st'"
      by (auto split: sum.splits)
    show ?thesis
    proof (cases "b = b'")
      case False
      with Cons.prems(2) have "b \<in> set bs" by simp
      from Cons.IH [OF r this] show ?thesis .
    next
      case True
      from addScopes_first [OF a bindingScopes_nonempty] obtain st0 where
        a0: "add platform (hd (bindingScopes b')) name (kb_run b') (kb_preventDefault b') st = Inr st0"
        and keep: "\<And>k w. snd st0 k = Some w \<Longrightarrow> snd st1 k = Some w"
        by blast
      have reg: "snd st' k = Some False" if "regularKey platform b k"
      proof -
        from that True Some obtain parts where
          na: "normalizeAll platform (splitNotLast CHR '' '' name) = Inr parts"
          and k: "joinWith '' '' parts = k"
          by (auto simp: regularKey_def)
        have "snd st0 k = Some False" using add_regular [OF a0 na] k by simp
        then have "snd st1 k = Some False" by (rule keep)
        with r show ?thesis by (rule buildLoop_keeps)
      qed
      have pre: "snd st' k = Some True" if "prefixKey platform b k"
      proof -
        from that True Some obtain parts i where
          na: "normalizeAll platform (splitNotLast CHR '' '' name) = Inr parts"
          and i: "1 \<le> i" "i < length parts" and k: "joinWith '' '' (take i parts) = k"
          by (auto simp: prefixKey_def)
        have "snd st0 k = Some True" using add_prefix [OF a0 na i] k by simp
        then have "snd st1 k = Some True" by (rule keep)
        with r show ?thesis by (rule buildLoop_keeps)
      qed
      from reg pre show ?thesis by blast
    qed
  qed
qed

lemma buildLoop_clash:
  assumes "b1 \<in> set bs" and "b2 \<in> set bs"
    and "regularKey platform b1 k" and "prefixKey platform b2 k"
  shows "\<exists>e. buildLoop platform bs st = Inl e"
proof (cases "buildLoop platform bs st")
  case (Inl e)
  then show ?thesis by blast
next
  case (Inr st')
  from buildLoop_marks [OF Inr assms(1), of k] assms(3) have "snd st' k = Some False" by blast
  moreover from buildLoop_marks [OF Inr assms(2), of k] assms(4) have "snd st' k = Some True" by blast
  ultimately show ?thesis by simp
qed

lemma buildKeymap_malformed:
  assumes "malformedBindings platform bs"
  shows "\<exists>e. buildKeymap bs platform = Inl e \<and> descriptive e"
proof -
  have "\<exists>e. buildLoop platform bs (Map.empty, Map.empty) = Inl e"
    using assms buildLoop_malformed buildLoop_clash
    unfolding malformedBindings_def by blast
  then obtain e where e: "buildLoop platform bs (Map.empty, Map.empty) = Inl e" by blast
  from buildLoop_error [OF e] e show ?thesis by (simp add: buildKeymap_def)
qed

lemma buildKeymap_error: "buildKeymap bs platform = Inl e \<Longrightarrow> descriptive e"
  by (auto simp: buildKeymap_def split: sum.splits dest: buildLoop_error)

subsection \<open>Stopping drains without notifying\<close>

text \<open>
  \<open>stop\<close> clears \<open>active\<close> before it flushes, and \<open>applyMutations\<close> forwards a range
  only while \<open>active\<close> holds. With three batched records and one queued legacy record
  pending, whose positions merge to the range (0, 14), stopping the active observer
  invokes \<open>onDOMChange\<close> not once but never.
\<close>

theorem stop_forwards_nothing_counterexample:
  "active pendingState \<and> observer pendingState
   \<and> pendingRecords pendingState = [textRecord, strayRecord, scenarioRecord]
   \<and> length (charDataQueue pendingState) = 1
   \<and> merged (pendingRecords pendingState) pendingState = (0, 14)
   \<and> domChanges (trace (stop pendingState)) = []"
  by (simp add: observer_defs scenario_defs domChanges_def merged_def resolvedRanges_def map_filter_simps)

text \<open>
  C1 (as amended). Calling \<open>stop()\<close> on an active observer that has a mutation observer
  delivers no \<open>onDOMChange\<close> invocation at all: the pending records (batched and
  legacy) are read with the observer already inactive. Afterwards the observer is
  inactive and disconnected, no batched record is left, the legacy queue is empty, and a
  non-empty legacy queue had its debounce timer cancelled; if anything was pending, the
  view tree has been resynced; the legacy listener is removed.
\<close>

theorem stop_drains_silently:
  assumes "active s" and "observer s"
  shows "domChanges (trace (stop s)) = domChanges (trace s)
     \<and> \<not> active (stop s) \<and> \<not> observing (stop s)
     \<and> pendingRecords (stop s) = [] \<and> charDataQueue (stop s) = []
     \<and> (charDataQueue s \<noteq> [] \<longrightarrow>
          charDataTimeout (stop s) = None
          \<and> (\<forall>h. charDataTimeout s = Some h \<longrightarrow> h \<notin> set (timers (stop s))))
     \<and> (pendingRecords s @ charDataQueue s \<noteq> [] \<longrightarrow> \<not> dirty (docView (stop s)))
     \<and> (useCharData s \<longrightarrow> \<not> charDataListener (stop s))"
  using assms by (rule stop_effect)

theorem stop_drains_silently_witness:
  "domChanges (trace (stop pendingState)) = [] \<and> charDataQueue (stop pendingState) = []
   \<and> charDataTimeout (stop pendingState) = None \<and> timers (stop pendingState) = []
   \<and> charDataTimeout pendingState = Some 1 \<and> timers pendingState = [1]
   \<and> \<not> dirty (docView (stop pendingState)) \<and> \<not> charDataListener (stop pendingState)"
proof -
  have a: "active pendingState" and ob: "observer pendingState"
    by (simp_all add: observer_defs scenario_defs)
  have q: "charDataQueue pendingState \<noteq> []" and t: "charDataTimeout pendingState = Some 1"
    and ts: "timers pendingState = [1]" and tr: "trace pendingState = []"
    by (simp_all add: observer_defs scenario_defs)
  have ts': "timers (stop pendingState) = []"
    by (simp add: observer_defs scenario_defs)
  have u: "useCharData pendingState"
    by (simp add: observer_defs scenario_defs)
  from stop_drains_silently [OF a ob] q t ts tr ts' u show ?thesis
    by (simp add: domChanges_def)
qed

subsection \<open>Pause suppresses model writes\<close>

text \<open>
  C2. While the observer is inactive, no processing of mutation records invokes
  \<open>onDOMChange\<close>: for every sequence of calls to \<open>flush()\<close>, calls to
  \<open>applyMutations(records)\<close> with any records, and platform events (among them the
  observer callback), the invocations of \<open>onDOMChange\<close> in the trace stay what they
  were, the observer stays inactive, and a further \<open>flush()\<close> or \<open>applyMutations\<close>
  returns false.
\<close>

theorem inactive_never_forwards:
  assumes "\<not> active s"
  shows "domChanges (trace (processAll ps s)) = domChanges (trace s)
     \<and> \<not> active (processAll ps s)
     \<and> \<not> fst (flush (processAll ps s))
     \<and> \<not> fst (applyMutations records (processAll ps s))"
proof -
  have ia: "\<not> active (processAll ps s)"
    using processAll_inactive [OF assms, of ps] by simp
  show ?thesis
    using processAll_inactive [OF assms, of ps] flush_inactive [OF ia]
      applyMutations_inactive [OF ia, of records]
    by simp
qed

theorem inactive_never_forwards_witness:
  "\<not> active (stop liveState)
   \<and> domChanges (trace (processAll
        [ViaApplyMutations [scenarioRecord], ViaPlatform (Mutated textRecord),
         ViaPlatform ObserverCallback, ViaFlush, ViaApplyMutations [textRecord, strayRecord]]
        (stop liveState))) = []"
proof -
  have ia: "\<not> active (stop liveState)" by simp
  have tr: "trace (stop liveState) = []"
    by (simp add: observer_defs scenario_defs)
  have "domChanges (trace (processAll
        [ViaApplyMutations [scenarioRecord], ViaPlatform (Mutated textRecord),
         ViaPlatform ObserverCallback, ViaFlush, ViaApplyMutations [textRecord, strayRecord]]
        (stop liveState))) = domChanges (trace (stop liveState))"
    using inactive_never_forwards [OF ia] by (rule conjunct1)
  also have "\<dots> = []" by (simp add: tr domChanges_def)
  finally show ?thesis using ia by blast
qed

subsection \<open>No duplicate notification\<close>



subsection \<open>Merge correctness\<close>

lemma scenario_ranges:
  "resolvedRanges scenarioView [textRecord, strayRecord, scenarioRecord] =
     [\<lparr>r_from = 9, r_to = 14\<rparr>, \<lparr>r_from = 5, r_to = 5\<rparr>]"
  by (simp add: resolvedRanges_def map_filter_simps readMutation_def Let_def scenario_defs)

text \<open>
  C4. For every batch whose records resolve to a non-empty list of dirty ranges (document
  positions, so no \<open>from\<close> is negative), the range merged during a flush is
  (min of all \<open>from\<close>, max of all \<open>to\<close>), and every reordering of the records gives the
  same result. For a batch that resolves to no range the sentinel \<open>from = -1\<close> is kept,
  the flush returns false and \<open>onDOMChange\<close> is not invoked.
\<close>

theorem merge_is_min_max:
  "(resolvedRanges v records \<noteq> [] \<and> (\<forall>rg \<in> set (resolvedRanges v records). 0 \<le> r_from rg) \<longrightarrow>
      fst (readRecords records (-1, -1) v) =
        (Min (r_from ` set (resolvedRanges v records)), Max (r_to ` set (resolvedRanges v records)))
      \<and> (\<forall>records'. mset records' = mset records \<longrightarrow>
            fst (readRecords records' (-1, -1) v) = fst (readRecords records (-1, -1) v)))
   \<and> (resolvedRanges v records = [] \<longrightarrow>
      fst (readRecords records (-1, -1) v) = (-1, -1)
      \<and> (\<forall>s::dom_observer. docView s = v \<and> charDataQueue s = [] \<longrightarrow>
            \<not> fst (applyMutations records s)
            \<and> domChanges (trace (snd (applyMutations records s))) = domChanges (trace s)))"
proof (intro conjI impI allI)
  assume h: "resolvedRanges v records \<noteq> [] \<and> (\<forall>rg \<in> set (resolvedRanges v records). 0 \<le> r_from rg)"
  show mm: "fst (readRecords records (-1, -1) v) =
        (Min (r_from ` set (resolvedRanges v records)), Max (r_to ` set (resolvedRanges v records)))"
    using h foldl_mergeStep_sentinel [of "resolvedRanges v records"] by (simp add: readRecords_fst)
  fix records'
  assume p: "mset records' = mset records"
  have ms: "mset (resolvedRanges v records') = mset (resolvedRanges v records)"
    using p by (rule resolvedRanges_mset)
  then have st: "set (resolvedRanges v records') = set (resolvedRanges v records)"
    by (rule mset_eq_setD)
  have ne: "resolvedRanges v records' \<noteq> []"
    using ms h by auto
  have "fst (readRecords records' (-1, -1) v) =
        (Min (r_from ` set (resolvedRanges v records')), Max (r_to ` set (resolvedRanges v records')))"
    using h ne st foldl_mergeStep_sentinel [of "resolvedRanges v records'"] by (simp add: readRecords_fst)
  then show "fst (readRecords records' (-1, -1) v) = fst (readRecords records (-1, -1) v)"
    using mm st by simp
next
  assume e: "resolvedRanges v records = []"
  show "fst (readRecords records (-1, -1) v) = (-1, -1)"
    using e by (simp add: readRecords_fst)
  fix s :: dom_observer
  assume s: "docView s = v \<and> charDataQueue s = []"
  have m: "merged records s = (-1, -1)"
    using e s by (simp add: merged_def)
  show "\<not> fst (applyMutations records s)"
    using m by (simp add: applyMutations_applied)
  then show "domChanges (trace (snd (applyMutations records s))) = domChanges (trace s)"
    by (simp add: applyMutations_domChanges)
qed

theorem merge_is_min_max_witness:
  "fst (readRecords [textRecord, strayRecord, scenarioRecord] (-1, -1) scenarioView) = (5, 14)
   \<and> fst (readRecords [scenarioRecord, textRecord, strayRecord] (-1, -1) scenarioView) = (5, 14)
   \<and> resolvedRanges scenarioView [strayRecord] = []
   \<and> fst (readRecords [strayRecord] (-1, -1) scenarioView) = (-1, -1)"
proof -
  let ?rs = "[textRecord, strayRecord, scenarioRecord]"
  have hyp: "resolvedRanges scenarioView ?rs \<noteq> []
      \<and> (\<forall>rg \<in> set (resolvedRanges scenarioView ?rs). 0 \<le> r_from rg)"
    by (simp add: scenario_ranges)
  have perm: "mset [scenarioRecord, textRecord, strayRecord] = mset ?rs"
    by (simp add: add.commute)
  have a: "fst (readRecords ?rs (-1, -1) scenarioView) = (5, 14)"
    using merge_is_min_max [of scenarioView ?rs] hyp by (simp add: scenario_ranges)
  have b: "fst (readRecords [scenarioRecord, textRecord, strayRecord] (-1, -1) scenarioView) =
      fst (readRecords ?rs (-1, -1) scenarioView)"
    using merge_is_min_max [of scenarioView ?rs] hyp perm by blast
  have e: "resolvedRanges scenarioView [strayRecord] = []"
    by (simp add: resolvedRanges_def map_filter_simps readMutation_def Let_def scenario_defs)
  have c: "fst (readRecords [strayRecord] (-1, -1) scenarioView) = (-1, -1)"
    using merge_is_min_max [of scenarioView "[strayRecord]"] e by blast
  from a b c e show ?thesis by simp
qed

subsection \<open>Scoped pause\<close>

text \<open>
  C5. \<open>withoutListening(action)\<close> always calls \<open>start()\<close> after the action, also when
  the action raises: the controller is active afterwards, and the outcome of the action
  (the exception it raised, if any) is the outcome of the call, unchanged.
\<close>

theorem withoutListening_resumes:
  "active (snd (withoutListening f s))
   \<and> fst (withoutListening f s) = fst (f (stop s))
   \<and> snd (withoutListening f s) = start (snd (f (stop s)))"
  by (simp add: withoutListening_def split: prod.splits)

theorem withoutListening_resumes_witness:
  "active (snd (withoutListening (\<lambda>s. (Some ''boom'', s)) liveState))
   \<and> fst (withoutListening (\<lambda>s. (Some ''boom'', s)) liveState) = Some ''boom''"
  using withoutListening_resumes [of "\<lambda>s. (Some ''boom'', s)" liveState] by simp

subsection \<open>The legacy queue is consumed atomically\<close>



subsection \<open>The range of a structural mutation\<close>

lemma findChild_owned:
  "findChild v desc n dir = Some c \<Longrightarrow> parent v c = Some desc"
proof (induction v desc n dir rule: findChild.induct)
  case (1 v desc dir)
  then show ?case by simp
next
  case (2 v desc n dir)
  show ?case
  proof (cases "ownedBy v desc (nodeView (forest v) n)")
    case True
    with "2.prems" show ?thesis by (auto simp: ownedBy_def split: option.splits)
  next
    case False
    with "2.prems" "2.IH" [OF refl False refl] show ?thesis by (simp add: Let_def)
  qed
qed



subsection \<open>Teardown\<close>

text \<open>
  \<open>destroy\<close> is \<open>stop\<close> followed by the removal of the \<open>selectionchange\<close> listener. The
  focus and blur listeners are anonymous closures that nothing removes, and the
  intersection observer is not disconnected: after \<open>destroy\<close> an intersection entry still
  reaches \<open>onIntersect\<close>, and a focus event registers the \<open>selectionchange\<close> listener
  again.
\<close>

theorem destroy_leaves_registrations_counterexample:
  "trace destroyedState = []
   \<and> focusBlurListeners destroyedState
   \<and> intersectionObserved destroyedState = [7]
   \<and> trace (fireAll [Intersected 1, IntersectionCallback] destroyedState) = [Intersect]
   \<and> selectionListener (fire FocusEv destroyedState)"
  by (simp add: destroyedState_def observer_defs scenario_defs)

text \<open>
  C8 (as amended). \<open>destroy()\<close> leaves the observer inactive and without its
  \<open>selectionchange\<close> listener, and invokes neither \<open>onDOMChange\<close> nor
  \<open>onSelectionChange\<close>. Called on an active observer it disconnects the mutation
  observer, where there is one, after draining it together with the legacy queue and
  cancelling the debounce timer of a non-empty queue, and it removes the legacy
  character-data listener. After \<open>destroy()\<close> no platform event invokes \<open>onDOMChange\<close> or
  \<open>onSelectionChange\<close> again. (The focus and blur listeners and the intersection
  observer stay registered.)
\<close>

theorem destroy_silences_model_callbacks:
  "\<not> active (destroy s) \<and> \<not> selectionListener (destroy s)
   \<and> domChanges (trace (destroy s)) = domChanges (trace s)
   \<and> selChanges (trace (destroy s)) = selChanges (trace s)
   \<and> (active s \<and> observer s \<longrightarrow>
         \<not> observing (destroy s) \<and> pendingRecords (destroy s) = [] \<and> charDataQueue (destroy s) = []
         \<and> (charDataQueue s \<noteq> [] \<longrightarrow>
              charDataTimeout (destroy s) = None
              \<and> (\<forall>h. charDataTimeout s = Some h \<longrightarrow> h \<notin> set (timers (destroy s)))))
   \<and> (active s \<and> useCharData s \<longrightarrow> \<not> charDataListener (destroy s))
   \<and> (\<forall>es. domChanges (trace (fireAll es (destroy s))) = domChanges (trace (destroy s))
           \<and> selChanges (trace (fireAll es (destroy s))) = selChanges (trace (destroy s))
           \<and> \<not> active (fireAll es (destroy s)))"
proof -
  have ia: "\<not> active (destroy s)" by (simp add: destroy_def)
  have dom: "domChanges (trace (stop s)) = domChanges (trace s)"
    and sel: "selChanges (trace (stop s)) = selChanges (trace s)"
    using flush_inactive [of "s\<lparr>active := False\<rparr>"]
    by (simp_all add: stop_def Let_def)
  have ob: "\<not> observing (destroy s) \<and> pendingRecords (destroy s) = [] \<and> charDataQueue (destroy s) = []
         \<and> (charDataQueue s \<noteq> [] \<longrightarrow>
              charDataTimeout (destroy s) = None
              \<and> (\<forall>h. charDataTimeout s = Some h \<longrightarrow> h \<notin> set (timers (destroy s))))"
    if "active s" "observer s"
    using stop_effect [OF that] by (simp add: destroy_def)
  have cd: "\<not> charDataListener (destroy s)" if "active s" "useCharData s"
    using that by (simp add: destroy_def stop_def Let_def)
  show ?thesis
    using ia dom sel ob cd fireAll_inactive [OF ia]
    by (simp add: destroy_def)
qed

theorem destroy_silences_model_callbacks_witness:
  "active pendingState \<and> observer pendingState \<and> useCharData pendingState
   \<and> \<not> active (destroy pendingState) \<and> \<not> observing (destroy pendingState)
   \<and> \<not> charDataListener (destroy pendingState) \<and> \<not> selectionListener (destroy pendingState)
   \<and> domChanges (trace (fireAll [FocusEv, PlatformState True True, SelectionChangeEv, TimerFired 1,
          Mutated textRecord, ObserverCallback] (destroy pendingState))) = []
   \<and> selChanges (trace (fireAll [FocusEv, PlatformState True True, SelectionChangeEv, TimerFired 1,
          Mutated textRecord, ObserverCallback] (destroy pendingState))) = []"
proof -
  have a: "active pendingState" and ob: "observer pendingState" and u: "useCharData pendingState"
    by (simp_all add: observer_defs scenario_defs)
  have tr: "trace pendingState = []"
    by (simp add: observer_defs scenario_defs)
  have d: "domChanges (trace (destroy pendingState)) = []" and s: "selChanges (trace (destroy pendingState)) = []"
    using destroy_silences_model_callbacks [of pendingState] tr
    by (simp_all add: domChanges_def selChanges_def)
  have "\<not> active (destroy pendingState) \<and> \<not> observing (destroy pendingState)
   \<and> \<not> charDataListener (destroy pendingState) \<and> \<not> selectionListener (destroy pendingState)"
    using destroy_silences_model_callbacks [of pendingState] a ob u by blast
  moreover have "domChanges (trace (fireAll [FocusEv, PlatformState True True, SelectionChangeEv, TimerFired 1,
          Mutated textRecord, ObserverCallback] (destroy pendingState))) = []"
    using destroy_silences_model_callbacks [of pendingState] d by (simp del: fireAll.simps fire.simps)
  moreover have "selChanges (trace (fireAll [FocusEv, PlatformState True True, SelectionChangeEv, TimerFired 1,
          Mutated textRecord, ObserverCallback] (destroy pendingState))) = []"
    using destroy_silences_model_callbacks [of pendingState] s by (simp del: fireAll.simps fire.simps)
  ultimately show ?thesis using a ob u by blast
qed

subsection \<open>Malformed key bindings\<close>




subsection \<open>Construction starts the observer\<close>

lemma constructor_eq:
  "constructor dv mo ie =
     \<lparr>docView = dv, observer = mo, useCharData = ie,
      charDataQueue = [], charDataTimeout = None, active = True, listening = False,
      observing = mo, pendingRecords = [], charDataListener = ie,
      selectionListener = False, focusBlurListeners = True, timers = [], nextTimer = 1,
      intersectionObserved = [], intersectionQueue = [], rootFocused = False,
      hasSelection = False, trace = []\<rparr>"
  by (simp add: constructor_def start_def listenForSelectionChanges_def Let_def)

text \<open>
  C10. Immediately after construction the observer is already active: the constructor
  ends with \<open>start()\<close>, so a \<open>start()\<close> by the caller changes nothing. Where the
  platform has \<open>MutationObserver\<close>, the observer is connected, and a mutation right after
  construction whose record resolves to a range is forwarded to \<open>onDOMChange\<close> with that
  range when its batch is delivered.
\<close>

theorem constructor_starts:
  "active (constructor dv mo ie)
   \<and> start (constructor dv mo ie) = constructor dv mo ie
   \<and> observing (constructor dv mo ie) = mo
   \<and> charDataListener (constructor dv mo ie) = ie
   \<and> (mo \<and> fst (readMutation r dv) = Some rg \<and> -1 < r_from rg \<longrightarrow>
        domChanges (trace (fireAll [Mutated r, ObserverCallback] (constructor dv mo ie))) =
          [DOMChange (r_from rg) (r_to rg)])"
proof -
  have fwd: "domChanges (trace (fireAll [Mutated r, ObserverCallback] (constructor dv mo ie))) =
          [DOMChange (r_from rg) (r_to rg)]"
    if mo and rm: "fst (readMutation r dv) = Some rg" and nn: "-1 < r_from rg"
  proof -
    let ?s = "(constructor dv True ie)\<lparr>pendingRecords := []\<rparr>"
    have m: "merged [r] ?s = (r_from rg, r_to rg)"
      using rm by (simp add: merged_def constructor_eq resolvedRanges_def map_filter_simps mergeStep_def)
    have ap: "fst (applyMutations [r] ?s)"
      using m nn by (simp add: applyMutations_applied) (simp add: constructor_eq)
    have "domChanges (trace (snd (applyMutations [r] ?s))) = [DOMChange (r_from rg) (r_to rg)]"
      using applyMutations_domChanges [of "[r]" ?s] ap m by (simp add: constructor_eq domChanges_def)
    then show ?thesis using \<open>mo\<close> by (simp add: constructor_eq)
  qed
  show ?thesis
    using fwd by (simp add: constructor_eq start_def Let_def)
qed

theorem constructor_starts_witness:
  "active liveState
   \<and> domChanges (trace (fireAll [Mutated textRecord, ObserverCallback] liveState)) = [DOMChange 9 14]"
proof -
  have rm: "fst (readMutation textRecord scenarioView) = Some \<lparr>r_from = 9, r_to = 14\<rparr>"
    by (simp add: readMutation_def Let_def scenario_defs)
  have "domChanges (trace (fireAll [Mutated textRecord, ObserverCallback] (constructor scenarioView True True))) =
      [DOMChange (r_from \<lparr>r_from = 9, r_to = 14\<rparr>) (r_to \<lparr>r_from = 9, r_to = 14\<rparr>)]"
    using constructor_starts [of scenarioView True True textRecord "\<lparr>r_from = 9, r_to = 14\<rparr>"] rm
    by (simp del: fireAll.simps fire.simps)
  moreover have "active (constructor scenarioView True True)"
    using constructor_starts [of scenarioView True True] by blast
  ultimately show ?thesis by (simp add: liveState_def del: fireAll.simps fire.simps)
qed

end
